(* ===== verification/Prelude.thy ===== *)
theory Prelude
  imports Main "HOL-Library.Word"
begin

text \<open>
  Shared vocabulary of the development: the byte and element types of the streams in
  \<open>src/em-maw/stream.h\<close>, the error values that stand for the undefined behaviour and
  failed assertions of the C++ code, the C integer conversions that \<open>refill_reverse\<close>
  performs on \<open>size_t\<close> and \<open>long\<close> values, and the list lemmas about files made of
  fixed-width records that every component proof uses, and the runs of a list of
  operations with their generic refinement and invariant lemmas.
\<close>

section \<open>Types\<close>

type_synonym byte = "8 word"

text \<open>
  A value of the template parameter \<open>T\<close> is copied raw by \<open>fread\<close>/\<open>fwrite\<close>, so it is
  modelled by its object representation: a list of \<open>sizeof(T)\<close> bytes.
\<close>

type_synonym elem = "byte list"

datatype stream_error =
    Out_of_bounds      \<comment> \<open>an access outside the \<open>malloc\<close>'d buffer: undefined behaviour in C++\<close>
  | Assert_failed      \<comment> \<open>a failed \<open>assert\<close> (only when assertions are compiled in)\<close>
  | Open_failure       \<comment> \<open>\<open>utils::file_open\<close> could not open the file\<close>

named_theorems window_simps "facts that evaluate buffer windows over uniform files"

section \<open>Runs of operations\<close>

text \<open>
  A component is driven by a list of operations: \<open>run_steps step\<close> runs them on a
  state, stopping at the first error; \<open>spec_steps spec\<close> runs them on an abstract
  state, \<open>None\<close> being a call outside the contract.
\<close>

fun run_steps :: "('o \<Rightarrow> 's \<Rightarrow> 'e + 'a \<times> 's) \<Rightarrow> 'o list \<Rightarrow> 's \<Rightarrow> 'e + 'a list \<times> 's" where
  "run_steps step [] s = Inr ([], s)"
| "run_steps step (op # ops) s =
     (case step op s of
        Inl e \<Rightarrow> Inl e
      | Inr (a, s1) \<Rightarrow> (case run_steps step ops s1 of Inl e \<Rightarrow> Inl e | Inr (as, s2) \<Rightarrow> Inr (a # as, s2)))"

fun spec_steps :: "('o \<Rightarrow> 'c \<Rightarrow> ('a \<times> 'c) option) \<Rightarrow> 'o list \<Rightarrow> 'c \<Rightarrow> ('a list \<times> 'c) option" where
  "spec_steps spec [] c = Some ([], c)"
| "spec_steps spec (op # ops) c =
     (case spec op c of
        None \<Rightarrow> None
      | Some (a, c1) \<Rightarrow> (case spec_steps spec ops c1 of None \<Rightarrow> None | Some (as, c2) \<Rightarrow> Some (a # as, c2)))"

section \<open>Files of fixed-width records\<close>

definition uniform :: "nat \<Rightarrow> 'a list list \<Rightarrow> bool" where
  "uniform sz xs \<longleftrightarrow> list_all (\<lambda>e. length e = sz) xs"

function chunks :: "nat \<Rightarrow> 'a list \<Rightarrow> 'a list list" where
  "chunks n xs = (if n = 0 \<or> xs = [] then [] else take n xs # chunks n (drop n xs))"
  by pat_completeness auto
termination
  by (relation "measure (\<lambda>(n, xs). length xs)") auto

declare chunks.simps [simp del]

lemma uniform_Nil [simp]: "uniform sz []"
  and uniform_Cons [simp]: "uniform sz (x # xs) \<longleftrightarrow> length x = sz \<and> uniform sz xs"
  and uniform_append [simp]: "uniform sz (xs @ ys) \<longleftrightarrow> uniform sz xs \<and> uniform sz ys"
  by (simp_all add: uniform_def)

lemma uniform_take [intro]: "uniform sz xs \<Longrightarrow> uniform sz (take k xs)"
  and uniform_drop [intro]: "uniform sz xs \<Longrightarrow> uniform sz (drop k xs)"
  by (auto simp: uniform_def list_all_iff dest: in_set_takeD in_set_dropD)

lemma uniform_nth: "uniform sz xs \<Longrightarrow> i < length xs \<Longrightarrow> length (xs ! i) = sz"
  by (simp add: uniform_def list_all_length)

lemma length_concat_uniform [window_simps]:
  "uniform sz xs \<Longrightarrow> length (concat xs) = length xs * sz"
  by (induction xs) auto

lemma drop_concat_uniform [window_simps]:
  "uniform sz xs \<Longrightarrow> drop (i * sz) (concat xs) = concat (drop i xs)"
proof (induction xs arbitrary: i)
  case Nil
  then show ?case by simp
next
  case (Cons x xs)
  then show ?case by (cases i) (simp_all add: add.commute)
qed

lemma take_concat_uniform [window_simps]:
  "uniform sz xs \<Longrightarrow> take (k * sz) (concat xs) = concat (take k xs)"
proof (induction xs arbitrary: k)
  case Nil
  then show ?case by simp
next
  case (Cons x xs)
  then show ?case by (cases k) (simp_all add: add.commute)
qed

lemma chunks_concat [window_simps]:
  "0 < sz \<Longrightarrow> uniform sz xs \<Longrightarrow> chunks sz (concat xs) = xs"
proof (induction xs)
  case Nil
  then show ?case by (simp add: chunks.simps)
next
  case (Cons x xs)
  then show ?case by (subst chunks.simps) auto
qed

lemma concat_uniform_inj:
  "0 < sz \<Longrightarrow> uniform sz xs \<Longrightarrow> uniform sz ys \<Longrightarrow> concat xs = concat ys \<Longrightarrow> xs = ys"
  by (metis chunks_concat)

lemma nat_int_Suc [simp]: "nat (int n + 1) = Suc n"
  by simp

lemma take_Suc_update: "n < length xs \<Longrightarrow> take (Suc n) (xs[n := x]) = take n xs @ [x]"
  by (simp add: take_Suc_conv_app_nth)

lemma take_last_split: "0 < m \<Longrightarrow> m \<le> length xs \<Longrightarrow> take m xs = take (m - 1) xs @ [xs ! (m - 1)]"
  by (metis Suc_pred' Suc_le_lessD take_Suc_conv_app_nth)

lemma nth_take_drop [window_simps]:
  "k < n \<Longrightarrow> j + n \<le> length xs \<Longrightarrow> take n (drop j xs) ! k = xs ! (j + k)"
  by simp

section \<open>C integer conversions\<close>

text \<open>
  \<open>refill_reverse\<close> mixes the signed \<open>long\<close> returned by \<open>ftell\<close> with the unsigned
  \<open>size_t\<close> product \<open>m_bufelems * sizeof(T) * time\<close>. On the LP64 targets the code is
  built for, both are 64 bits wide. The usual arithmetic conversions turn the \<open>long\<close>
  into \<open>unsigned long\<close> for the comparison, the unary minus is taken modulo \<open>2^64\<close>,
  and passing the result to \<open>fseek\<close>'s \<open>long\<close> parameter reads it back as two's
  complement.
\<close>

type_synonym ulong = "64 word"

definition to_ulong :: "int \<Rightarrow> ulong" where
  "to_ulong x = word_of_int x"

definition ulong_ge :: "int \<Rightarrow> int \<Rightarrow> bool" where
  "ulong_ge a b \<longleftrightarrow> to_ulong b \<le> to_ulong a"

definition neg_ulong_as_long :: "int \<Rightarrow> int" where
  "neg_ulong_as_long x = sint (- to_ulong x)"

definition size_t_of :: "int \<Rightarrow> nat" where
  "size_t_of x = unat (to_ulong x)"

text \<open>
  A \<open>size_t\<close> value stored into a 64-bit \<open>INT\<close> (as the quotient
  \<open>buf_bytes / sizeof(T)\<close> is stored into \<open>m_bufelems\<close>): the same bits read as signed.
\<close>

definition long_of :: "nat \<Rightarrow> int" where
  "long_of n = sint (word_of_nat n :: ulong)"

text \<open>
  \<open>malloc(n * sizeof(T))\<close> with \<open>n\<close> an \<open>INT\<close>: the byte count is computed in
  \<open>size_t\<close>; the buffer holds that many bytes' worth of whole elements (allocation
  failure is not modelled).
\<close>

definition alloc_elems :: "int \<Rightarrow> nat \<Rightarrow> nat" where
  "alloc_elems n sz = size_t_of (n * int sz) div sz"

lemma ulong_ge_int:
  assumes "0 \<le> a" "a < 2 ^ 64" "0 \<le> b" "b < 2 ^ 64"
  shows "ulong_ge a b \<longleftrightarrow> b \<le> a"
  using assms by (simp add: ulong_ge_def to_ulong_def word_le_def uint_word_of_int_eq take_bit_int_eq_self)

lemma neg_ulong_as_long_int:
  assumes "0 \<le> x" "x < 2 ^ 63"
  shows "neg_ulong_as_long x = - x"
proof -
  have "- to_ulong x = word_of_int (- x)"
    by (simp add: to_ulong_def)
  moreover have "sint (word_of_int (- x) :: ulong) = signed_take_bit 63 (- x)"
    by (subst sint_sbintrunc') simp
  moreover have "signed_take_bit 63 (- x) = - x"
    using assms by (intro signed_take_bit_int_eq_self) simp_all
  ultimately show ?thesis
    by (simp add: neg_ulong_as_long_def)
qed

lemma size_t_of_int:
  assumes "0 \<le> x" "x < 2 ^ 64"
  shows "size_t_of x = nat x"
  using assms by (simp add: size_t_of_def to_ulong_def unat_eq_nat_uint uint_word_of_int_eq take_bit_int_eq_self)

section \<open>Runs: refinement and invariants\<close>

text \<open>
  A step that refines the specification under an invariant \<open>I\<close> and an abstraction
  \<open>abst\<close> gives runs that refine it.
\<close>

lemma run_steps_refines:
  assumes step: "\<And>op s a c'. I s \<Longrightarrow> spec op (abst s) = Some (a, c') \<Longrightarrow>
                   \<exists>s'. st op s = Inr (a, s') \<and> I s' \<and> abst s' = c'"
  shows "I s \<Longrightarrow> spec_steps spec ops (abst s) = Some (as, c) \<Longrightarrow>
         \<exists>s'. run_steps st ops s = Inr (as, s') \<and> I s' \<and> abst s' = c"
proof (induction ops arbitrary: s as)
  case Nil
  then show ?case by simp
next
  case (Cons op ops)
  obtain a c1 as' where sp: "spec op (abst s) = Some (a, c1)" "spec_steps spec ops c1 = Some (as', c)"
      "as = a # as'"
    using Cons.prems(2) by (auto split: option.splits)
  obtain s1 where s1: "st op s = Inr (a, s1)" "I s1" "abst s1 = c1"
    using step [OF Cons.prems(1) sp(1)] by blast
  obtain s2 where "run_steps st ops s1 = Inr (as', s2)" "I s2" "abst s2 = c"
    using Cons.IH [OF s1(2)] sp(2) s1(3) by blast
  then show ?case
    using s1 sp(3) by simp
qed

text \<open>A property kept by every step, with a property of every answer, holds along runs.\<close>

lemma run_steps_inv:
  assumes step: "\<And>op s a s'. I s \<Longrightarrow> st op s = Inr (a, s') \<Longrightarrow> I s' \<and> P a"
  shows "I s \<Longrightarrow> run_steps st ops s = Inr (as, s') \<Longrightarrow> list_all P as \<and> I s'"
proof (induction ops arbitrary: s as)
  case Nil
  then show ?case by simp
next
  case (Cons op ops)
  obtain a s1 as' where r: "st op s = Inr (a, s1)" "run_steps st ops s1 = Inr (as', s')" "as = a # as'"
    using Cons.prems(2) by (auto split: sum.splits)
  have "I s1 \<and> P a"
    by (rule step [OF Cons.prems(1) r(1)])
  then show ?case
    using Cons.IH [of s1 as'] r by simp
qed

section \<open>The buffer sizes of the constructors\<close>

lemma long_of_small: "n < 2 ^ 63 \<Longrightarrow> long_of n = int n"
proof -
  assume n: "n < 2 ^ 63"
  have "sint (word_of_int (int n) :: ulong) = signed_take_bit 63 (int n)"
    by (subst sint_sbintrunc') simp
  moreover have "signed_take_bit 63 (int n) = int n"
    using n by (intro signed_take_bit_int_eq_self) simp_all
  ultimately show ?thesis
    by (simp add: long_of_def)
qed

lemma long_of_0 [simp]: "long_of 0 = 0" and alloc_elems_0 [simp]: "alloc_elems 0 sz = 0"
  by (simp_all add: long_of_def alloc_elems_def size_t_of_def to_ulong_def)

text \<open>For a buffer size that fits an \<open>INT\<close> and is not negative, both conversions are exact.\<close>

lemma ctor_bufelems:
  assumes "0 \<le> b" "b < 2 ^ 63" "0 < sz"
  shows "long_of (size_t_of b div sz) = int (nat b div sz)" "alloc_elems (int (nat b div sz)) sz = nat b div sz"
proof -
  have st: "size_t_of b = nat b"
    using assms by (simp add: size_t_of_int)
  have nb: "nat b < 2 ^ 63"
    using assms by (simp add: nat_less_iff)
  have "nat b div sz < 2 ^ 63"
    using div_le_dividend [of "nat b" sz] nb by linarith
  then show "long_of (size_t_of b div sz) = int (nat b div sz)"
    using st by (simp add: long_of_small)
  have "(2::nat) ^ 63 < 2 ^ 64"
    by simp
  then have "nat b div sz * sz < 2 ^ 64"
    using div_times_less_eq_dividend [of "nat b" sz] nb by linarith
  then have "size_t_of (int (nat b div sz) * int sz) = nat b div sz * sz"
    by (simp add: size_t_of_int flip: of_nat_mult)
  then show "alloc_elems (int (nat b div sz)) sz = nat b div sz"
    using assms(3) by (simp add: alloc_elems_def)
qed
text \<open>
  Quotients of \<open>2^63\<close> or more wrap to negative \<open>INT\<close> values; a negative
  \<open>INT\<close> converted to \<open>size_t\<close> becomes \<open>b + 2^64\<close>.
\<close>

lemma long_of_large: "2 ^ 63 \<le> n \<Longrightarrow> n < 2 ^ 64 \<Longrightarrow> long_of n = int n - 2 ^ 64"
proof -
  assume a: "2 ^ 63 \<le> n" "n < 2 ^ 64"
  have "sint (word_of_int (int n) :: ulong) = signed_take_bit 63 (int n)"
    by (subst sint_sbintrunc') simp
  moreover have "signed_take_bit 63 (int n) = int n - 2 ^ 64"
  proof -
    have "signed_take_bit 63 (int n) = take_bit 64 (int n + 2 ^ 63) - 2 ^ 63"
      by (simp add: signed_take_bit_eq_take_bit_shift)
    moreover have "take_bit 64 (int n + 2 ^ 63) = int n + 2 ^ 63 - 2 ^ 64"
    proof -
      have e: "int n + 2 ^ 63 = (int n - 2 ^ 63) + 2 ^ 64"
        by simp
      have m: "(int n - 2 ^ 63) mod 2 ^ 64 = int n - 2 ^ 63"
        using a by (intro mod_pos_pos_trivial) simp_all
      show ?thesis
        unfolding take_bit_eq_mod e mod_add_self2 m by simp
    qed
    ultimately show ?thesis by simp
  qed
  ultimately show ?thesis
    by (simp add: long_of_def)
qed

lemma size_t_of_neg:
  assumes "- (2 ^ 64) \<le> b" "b < 0"
  shows "size_t_of b = nat (b + 2 ^ 64)"
proof -
  have "b mod 2 ^ 64 = (b + 2 ^ 64) mod 2 ^ 64"
    by (simp only: mod_add_self2)
  also have "\<dots> = b + 2 ^ 64"
    using assms by (intro mod_pos_pos_trivial) simp_all
  finally have "b mod 2 ^ 64 = b + 2 ^ 64" .
  then show ?thesis
    by (simp add: size_t_of_def to_ulong_def unat_eq_nat_uint uint_word_of_int_eq take_bit_eq_mod)
qed

text \<open>
  The \<open>m_bufelems\<close> of both constructors over the whole \<open>INT\<close> range of the
  buffer size: a negative size wraps to a huge quotient, which is read back as the
  negative size itself only when \<open>sizeof(T) = 1\<close>.
\<close>

lemma long_of_bufelems:
  assumes "- (2 ^ 63) \<le> b" "b < 2 ^ 63" "0 < sz"
  shows "long_of (size_t_of b div sz) = (if 0 \<le> b \<or> sz = 1 then b div int sz else (b + 2 ^ 64) div int sz)"
proof (cases "0 \<le> b")
  case True
  then show ?thesis
    using ctor_bufelems (1) [OF True assms(2,3)] by (simp add: zdiv_int)
next
  case False
  then have st: "size_t_of b = nat (b + 2 ^ 64)"
    using assms by (intro size_t_of_neg) simp_all
  show ?thesis
  proof (cases "sz = 1")
    case True
    have "2 ^ 63 \<le> nat (b + 2 ^ 64)" "nat (b + 2 ^ 64) < 2 ^ 64"
      using assms False by (simp_all add: le_nat_iff nat_less_iff)
    then show ?thesis
      using False True st by (simp add: long_of_large)
  next
    case sz: False
    have "nat (b + 2 ^ 64) div sz \<le> nat (b + 2 ^ 64) div 2"
      using sz assms(3) by (intro div_le_mono2) simp_all
    moreover have "nat (b + 2 ^ 64) div 2 < 2 ^ 63"
      using False by (intro less_mult_imp_div_less) (simp add: nat_less_iff)
    ultimately have "nat (b + 2 ^ 64) div sz < 2 ^ 63"
      by linarith
    then show ?thesis
      using False sz st assms by (simp add: long_of_small zdiv_int)
  qed
qed

text \<open>
  Storing a \<open>size_t\<close> quotient in an \<open>INT\<close> and converting it back is the identity, and
  the buffer \<open>malloc(m_bufelems * sizeof(T))\<close> then holds exactly that many records,
  whatever the sign the \<open>INT\<close> shows: the count handed to \<open>fread\<close> always fits.
\<close>

lemma size_t_of_long_of: "size_t_of (long_of q) = q mod 2 ^ 64"
  by (simp add: size_t_of_def long_of_def to_ulong_def unat_of_nat)

lemma alloc_elems_long_of:
  assumes "0 < sz" "q * sz < 2 ^ 64"
  shows "alloc_elems (long_of q) sz = q"
proof -
  have "to_ulong (long_of q * int sz) = word_of_nat (q * sz)"
    by (simp add: to_ulong_def long_of_def)
  then have "size_t_of (long_of q * int sz) = unat (word_of_nat (q * sz) :: ulong)"
    by (simp only: size_t_of_def)
  also have "\<dots> = q * sz"
    using assms(2) by (simp only: unat_of_nat) simp
  finally have "size_t_of (long_of q * int sz) = q * sz" .
  then show ?thesis
    using assms(1) by (simp add: alloc_elems_def)
qed

lemma size_t_of_lt: "size_t_of x < 2 ^ 64"
  using unsigned_less [of "to_ulong x"] by (simp add: size_t_of_def)

lemma ctor_quotient:
  assumes "0 < sz"
  shows "size_t_of (long_of (size_t_of b div sz)) = size_t_of b div sz"
    "alloc_elems (long_of (size_t_of b div sz)) sz = size_t_of b div sz"
proof -
  have "size_t_of b div sz * sz < 2 ^ 64"
    using div_times_less_eq_dividend [of "size_t_of b" sz] size_t_of_lt [of b] by linarith
  moreover have "size_t_of b div sz < 2 ^ 64"
    using div_le_dividend [of "size_t_of b" sz] size_t_of_lt [of b] by linarith
  ultimately show "size_t_of (long_of (size_t_of b div sz)) = size_t_of b div sz"
    "alloc_elems (long_of (size_t_of b div sz)) sz = size_t_of b div sz"
    using assms by (simp_all add: size_t_of_long_of alloc_elems_long_of)
qed

end
