(* ===== verification/CStdio.thy ===== *)
theory CStdio
  imports Prelude
begin

text \<open>
  The environment the streams of \<open>src/em-maw/stream.h\<close> run in: a \<open>std::FILE\<close> handle as
  the file's bytes and the current byte position, the C library calls the streams make
  (\<open>fseek\<close>, \<open>ftell\<close>, \<open>fread\<close>), the \<open>malloc\<close>'d buffer as a list with checked
  indexing, and the two helpers of \<open>utils.h\<close> (\<open>file_open\<close>,
  \<open>add_objects_to_file\<close>), which are not in the repository's \<open>src/\<close> and are modelled
  from the specification (section 6: open, bulk write).
  The file system is a map from paths to contents.
\<close>

section \<open>Files and handles\<close>

record cfile =
  contents :: "byte list"
  fpos :: nat

type_synonym fsys = "string \<rightharpoonup> byte list"

datatype whence = SEEK_SET | SEEK_CUR | SEEK_END

text \<open>
  \<open>fseek\<close> computes the new position from the origin; a negative result fails with
  \<open>-1\<close> and leaves the position unchanged. Seeking past the end is allowed.
\<close>

definition fseek :: "cfile \<Rightarrow> int \<Rightarrow> whence \<Rightarrow> int \<times> cfile" where
  "fseek f off wh =
     (let base = (case wh of
                    SEEK_SET \<Rightarrow> 0
                  | SEEK_CUR \<Rightarrow> int (fpos f)
                  | SEEK_END \<Rightarrow> int (length (contents f)));
          p = base + off
      in if p < 0 then (-1, f) else (0, f\<lparr>fpos := nat p\<rparr>))"

definition ftell :: "cfile \<Rightarrow> int" where
  "ftell f = int (fpos f)"

text \<open>
  \<open>fread(buf, sz, cnt, f)\<close> transfers \<open>min (cnt * sz)\<close> and the bytes left in the file,
  stores the complete elements among them in the first slots of \<open>buf\<close>, advances the
  position by the bytes transferred and returns the number of complete elements. A
  transfer longer than the buffer is a write out of bounds. The bytes of a trailing
  partial element are left out of the buffer (C leaves that slot indeterminate); no file
  written by \<open>stream_writer\<close> has one.
\<close>

definition fread :: "nat \<Rightarrow> nat \<Rightarrow> elem list \<Rightarrow> cfile \<Rightarrow> stream_error + nat \<times> elem list \<times> cfile" where
  "fread sz cnt buf f =
     (let nb = min (cnt * sz) (length (contents f) - fpos f);
          k = nb div sz
      in if length buf * sz < nb then Inl Out_of_bounds
         else Inr (k, chunks sz (take (k * sz) (drop (fpos f) (contents f))) @ drop k buf,
                   f\<lparr>fpos := fpos f + nb\<rparr>))"

section \<open>The buffer\<close>

text \<open>
  \<open>m_buffer[k]\<close> on the \<open>malloc\<close>'d array of \<open>m_bufelems\<close> elements: an index outside
  the array is undefined behaviour, an error value here.
\<close>

definition buf_get :: "elem list \<Rightarrow> int \<Rightarrow> stream_error + elem" where
  "buf_get buf k = (if 0 \<le> k \<and> k < int (length buf) then Inr (buf ! nat k) else Inl Out_of_bounds)"

definition buf_set :: "elem list \<Rightarrow> int \<Rightarrow> elem \<Rightarrow> stream_error + elem list" where
  "buf_set buf k x = (if 0 \<le> k \<and> k < int (length buf) then Inr (buf[nat k := x]) else Inl Out_of_bounds)"

section \<open>The helpers of utils.h\<close>

text \<open>
  \<open>utils::file_open(name, mode)\<close>: mode \<open>"r"\<close> opens an existing file at position 0,
  mode \<open>"w"\<close> creates or truncates it; an open failure is an error value.
\<close>

definition file_open :: "fsys \<Rightarrow> string \<Rightarrow> string \<Rightarrow> stream_error + fsys \<times> cfile" where
  "file_open fs name mode =
     (if mode = ''r'' then
        (case fs name of
           None \<Rightarrow> Inl Open_failure
         | Some c \<Rightarrow> Inr (fs, \<lparr>contents = c, fpos = 0\<rparr>))
      else if mode = ''w'' then Inr (fs(name \<mapsto> []), \<lparr>contents = [], fpos = 0\<rparr>)
      else Inl Open_failure)"

text \<open>
  \<open>utils::add_objects_to_file(f, n, tab)\<close> writes the first \<open>n\<close> elements of \<open>tab\<close> at
  the current position (overwriting, or extending the file) and advances the position.
\<close>

definition add_objects_to_file :: "cfile \<Rightarrow> int \<Rightarrow> elem list \<Rightarrow> stream_error + cfile" where
  "add_objects_to_file f n tab =
     (if n < 0 \<or> int (length tab) < n then Inl Out_of_bounds
      else
        let d = concat (take (nat n) tab); c = contents f; p = fpos f
        in Inr \<lparr>contents = take p c @ replicate (p - length c) 0 @ d @ drop (p + length d) c,
                fpos = p + length d\<rparr>)"

text \<open>\<open>std::fclose\<close> makes the handle's contents those of the file on disk.\<close>

definition fclose :: "fsys \<Rightarrow> string \<Rightarrow> cfile \<Rightarrow> fsys" where
  "fclose fs name f = fs(name \<mapsto> contents f)"

section \<open>Lemmas\<close>

lemma fseek_set [simp]: "0 \<le> off \<Longrightarrow> fseek f off SEEK_SET = (0, f\<lparr>fpos := nat off\<rparr>)"
  by (simp add: fseek_def)

lemma fseek_end [simp]: "fseek f 0 SEEK_END = (0, f\<lparr>fpos := length (contents f)\<rparr>)"
  by (simp add: fseek_def)

lemma fseek_cur_back [simp]:
  "d \<le> fpos f \<Longrightarrow> fseek f (- int d) SEEK_CUR = (0, f\<lparr>fpos := fpos f - d\<rparr>)"
  by (simp add: fseek_def of_nat_diff)

lemma buf_get_ok [simp]:
  "0 \<le> k \<Longrightarrow> k < int (length buf) \<Longrightarrow> buf_get buf k = Inr (buf ! nat k)"
  by (simp add: buf_get_def)

lemma buf_set_ok [simp]:
  "0 \<le> k \<Longrightarrow> k < int (length buf) \<Longrightarrow> buf_set buf k x = Inr (buf[nat k := x])"
  by (simp add: buf_set_def)

text \<open>
  The central fact about \<open>fread\<close> on a file of \<open>n\<close> records of \<open>sz\<close> bytes: from an
  aligned position \<open>j * sz\<close> it delivers the next \<open>min cnt (n - j)\<close> records, in
  order, into the first slots of the buffer.
\<close>

lemma fread_uniform:
  assumes "0 < sz" "uniform sz xs" "contents f = concat xs" "fpos f = j * sz"
    and "cnt \<le> length buf"
  shows "fread sz cnt buf f =
           Inr (min cnt (length xs - j),
                take (min cnt (length xs - j)) (drop j xs) @ drop (min cnt (length xs - j)) buf,
                f\<lparr>fpos := (j + min cnt (length xs - j)) * sz\<rparr>)"
proof -
  let ?k = "min cnt (length xs - j)"
  have len: "length (contents f) - fpos f = (length xs - j) * sz"
    using assms by (simp add: window_simps diff_mult_distrib)
  have nb: "min (cnt * sz) (length (contents f) - fpos f) = ?k * sz"
    using len by (simp add: min_def)
  have k: "?k * sz div sz = ?k"
    using assms(1) by simp
  have fit: "\<not> length buf * sz < ?k * sz"
    using assms(5) by (simp add: mult_le_mono1 not_less)
  have "take (?k * sz) (drop (fpos f) (contents f)) = concat (take ?k (drop j xs))"
    using assms(2-4) by (simp add: window_simps uniform_drop)
  moreover have "chunks sz (concat (take ?k (drop j xs))) = take ?k (drop j xs)"
    using assms(1,2) by (simp add: window_simps uniform_take uniform_drop)
  ultimately show ?thesis
    using nb k fit assms(4) by (simp add: fread_def Let_def algebra_simps)
qed

lemma length_chunks:
  "0 < n \<Longrightarrow> length xs = k * n \<Longrightarrow> length (chunks n xs) = k"
proof (induction k arbitrary: xs)
  case 0
  then show ?case by (simp add: chunks.simps)
next
  case (Suc k)
  then have "xs \<noteq> []" "length (drop n xs) = k * n"
    by auto
  then show ?case
    using Suc by (subst chunks.simps) simp
qed

text \<open>
  Whatever the position, \<open>fread\<close> of at most a buffer's worth of elements succeeds,
  fills at most \<open>cnt\<close> slots, keeps the buffer's size and the file's contents, and
  leaves the position within the file.
\<close>

lemma fread_ok:
  assumes "0 < sz" "cnt \<le> length buf" "fpos f \<le> length (contents f)"
  shows "\<exists>k buf' f'. fread sz cnt buf f = Inr (k, buf', f') \<and> k \<le> cnt \<and> length buf' = length buf \<and>
           contents f' = contents f \<and> fpos f' \<le> length (contents f)"
proof -
  define nb where "nb = min (cnt * sz) (length (contents f) - fpos f)"
  define k where "k = nb div sz"
  have fit: "\<not> length buf * sz < nb"
    using assms(2) unfolding nb_def by (simp add: not_less min_le_iff_disj mult_le_mono1)
  have "nb \<le> cnt * sz"
    unfolding nb_def by simp
  then have kc: "k \<le> cnt"
    using div_le_mono [of nb "cnt * sz" sz] assms(1) unfolding k_def by simp
  have "k * sz \<le> nb"
    unfolding k_def by (rule div_times_less_eq_dividend)
  then have "length (take (k * sz) (drop (fpos f) (contents f))) = k * sz"
    unfolding nb_def by simp
  then have "length (chunks sz (take (k * sz) (drop (fpos f) (contents f)))) = k"
    using assms(1) by (simp add: length_chunks)
  moreover have "fpos f + nb \<le> length (contents f)"
    using assms(3) unfolding nb_def by simp
  ultimately show ?thesis
    using fit kc assms(2) by (simp add: fread_def Let_def flip: nb_def k_def)
qed

end
