(* ===== verification/Reader.thy ===== *)
theory Reader
  imports CStdio
begin

text \<open>
  \<open>stream_reader<T>\<close> of \<open>src/em-maw/stream.h\<close> (lines 21--172), one definition per member
  function. The record holds the struct's fields; the size \<open>sizeof(T)\<close> of the template
  parameter is the first argument \<open>sz\<close> of every operation. Each operation returns the
  updated reader, or an error value where the C++ code reads or writes outside its buffer
  or fails an \<open>assert\<close>. \<open>asserts\<close> says whether \<open>assert\<close> is compiled in
  (\<open>NDEBUG\<close> unset).
\<close>

record reader =
  m_file :: cfile
  m_bufelems :: int
  m_filled :: int
  m_pos :: int
  m_offset :: int
  m_buffer :: "elem list"

section \<open>Refills (private)\<close>

text \<open>
  \<open>refill(new_offset)\<close>: with an explicit offset (anything but the default \<open>-1\<close>) it sets
  \<open>m_offset\<close> and seeks the file to \<open>m_offset\<close> --- a byte position --- otherwise it
  advances \<open>m_offset\<close> past the current window. It then reads up to \<open>m_bufelems\<close>
  elements and puts the cursor at 0.
\<close>

definition refill :: "nat \<Rightarrow> int \<Rightarrow> reader \<Rightarrow> stream_error + int \<times> reader" where
  "refill sz new_offset r =
     (let r1 = (if new_offset \<noteq> -1
                then r\<lparr>m_offset := new_offset,
                       m_file := snd (fseek (m_file r) new_offset SEEK_SET)\<rparr>
                else r\<lparr>m_offset := m_offset r + m_filled r\<rparr>)
      in case fread sz (size_t_of (m_bufelems r1)) (m_buffer r1) (m_file r1) of
           Inl e \<Rightarrow> Inl e
         | Inr (k, buf, f) \<Rightarrow>
             Inr (int k, r1\<lparr>m_filled := int k, m_buffer := buf, m_file := f, m_pos := 0\<rparr>))"

text \<open>
  \<open>refill_reverse(time)\<close>: if the file position is at least \<open>m_bufelems * sizeof(T) *
  time\<close> bytes, seek back that far and read a full buffer, otherwise seek to the start and
  read \<open>m_offset\<close> elements. At offset 0 the window is emptied and 0 returned; otherwise
  \<open>m_offset\<close> drops by the count read and the cursor goes to the last slot read.
  The comparison and the negated byte count are computed as in C (\<open>size_t\<close> arithmetic,
  see the prelude).
\<close>

definition refill_reverse :: "nat \<Rightarrow> int \<Rightarrow> reader \<Rightarrow> stream_error + int \<times> reader" where
  "refill_reverse sz time r =
     (let amount = m_bufelems r * int sz * time;
          B = ulong_ge (ftell (m_file r)) amount;
          f1 = (if B then snd (fseek (m_file r) (neg_ulong_as_long amount) SEEK_CUR)
                else snd (fseek (m_file r) 0 SEEK_SET));
          cnt = (if B then size_t_of (m_bufelems r) else size_t_of (m_offset r))
      in case fread sz cnt (m_buffer r) f1 of
           Inl e \<Rightarrow> Inl e
         | Inr (k, buf, f2) \<Rightarrow>
             (let r2 = r\<lparr>m_file := f2, m_buffer := buf, m_filled := int k\<rparr>
              in if m_offset r2 = 0 then Inr (0, r2\<lparr>m_filled := 0\<rparr>)
                 else Inr (int k, r2\<lparr>m_offset := m_offset r2 - int k, m_pos := int k - 1\<rparr>)))"

section \<open>Construction\<close>

text \<open>
  The constructor: \<open>m_bufelems = buf_bytes / sizeof(T)\<close> (an unsigned division, stored
  back into an \<open>INT\<close>), open the
  file for reading, allocate the buffer (its initial contents, unspecified in C, are zero
  bytes here; the cursor, uninitialised in C, is 0 until the first refill sets it) and
  refill.
\<close>

definition stream_reader :: "nat \<Rightarrow> fsys \<Rightarrow> string \<Rightarrow> int \<Rightarrow> stream_error + reader" where
  "stream_reader sz fs fname buf_bytes =
     (let bufelems = long_of (size_t_of buf_bytes div sz)
      in case file_open fs fname ''r'' of
           Inl e \<Rightarrow> Inl e
         | Inr (_, f) \<Rightarrow>
             (case refill sz (-1) \<lparr>m_file = f, m_bufelems = bufelems, m_filled = 0, m_pos = 0, m_offset = 0,
                                   m_buffer = replicate (alloc_elems bufelems sz) (replicate sz 0)\<rparr> of
                Inl e \<Rightarrow> Inl e
              | Inr (_, r) \<Rightarrow> Inr r))"

text \<open>The destructor: \<open>free(m_buffer); fclose(m_file);\<close>, with the file system the handle is closed into.\<close>

definition reader_close :: "fsys \<Rightarrow> string \<Rightarrow> reader \<Rightarrow> fsys" where
  "reader_close fs fname r = fclose fs fname (m_file r)"

section \<open>Forward access\<close>

definition peek :: "reader \<Rightarrow> stream_error + elem" where
  "peek r = buf_get (m_buffer r) (m_pos r)"

text \<open>The block shared by \<open>operator[]\<close> and \<open>getValue\<close> (lines 43--51 and 58--66).\<close>

definition index_refill :: "nat \<Rightarrow> int \<Rightarrow> reader \<Rightarrow> stream_error + reader" where
  "index_refill sz i r =
     (if m_offset r + m_filled r \<le> i then
        (case (if i < m_offset r + m_filled r + m_bufelems r then refill sz (-1) r
               else refill sz i r) of
           Inl e \<Rightarrow> Inl e
         | Inr (_, r1) \<Rightarrow> Inr r1)
      else Inr r)"

text \<open>\<open>operator[](i)\<close>; the reference it returns is read, not written through.\<close>

definition index :: "bool \<Rightarrow> nat \<Rightarrow> int \<Rightarrow> reader \<Rightarrow> stream_error + elem \<times> reader" where
  "index asserts sz i r =
     (if asserts \<and> \<not> m_offset r \<le> i then Inl Assert_failed
      else case index_refill sz i r of
             Inl e \<Rightarrow> Inl e
           | Inr r1 \<Rightarrow>
               (case buf_get (m_buffer r1) (i - m_offset r1) of
                  Inl e \<Rightarrow> Inl e
                | Inr x \<Rightarrow> Inr (x, r1)))"

text \<open>
  \<open>operator[](i) = v\<close>: an assignment through the reference \<open>operator[]\<close> returns,
  which stores into the buffer slot of record \<open>i\<close> after the same refill.
\<close>

definition index_write :: "bool \<Rightarrow> nat \<Rightarrow> int \<Rightarrow> elem \<Rightarrow> reader \<Rightarrow> stream_error + reader" where
  "index_write asserts sz i v r =
     (if asserts \<and> \<not> m_offset r \<le> i then Inl Assert_failed
      else case index_refill sz i r of
             Inl e \<Rightarrow> Inl e
           | Inr r1 \<Rightarrow>
               (case buf_set (m_buffer r1) (i - m_offset r1) v of
                  Inl e \<Rightarrow> Inl e
                | Inr buf \<Rightarrow> Inr (r1\<lparr>m_buffer := buf\<rparr>)))"

definition getValue :: "bool \<Rightarrow> nat \<Rightarrow> int \<Rightarrow> reader \<Rightarrow> stream_error + elem \<times> reader" where
  "getValue asserts sz i r =
     (if asserts \<and> \<not> m_offset r \<le> i then Inl Assert_failed
      else case index_refill sz i r of
             Inl e \<Rightarrow> Inl e
           | Inr r1 \<Rightarrow>
               (case (if i < m_offset r1 then refill sz i r1 else Inr (0, r1)) of
                  Inl e \<Rightarrow> Inl e
                | Inr (_, r2) \<Rightarrow>
                    (case buf_get (m_buffer r2) (i - m_offset r2) of
                       Inl e \<Rightarrow> Inl e
                     | Inr x \<Rightarrow> Inr (x, r2))))"

text \<open>\<open>operator++\<close>.\<close>

definition incr :: "nat \<Rightarrow> reader \<Rightarrow> stream_error + reader" where
  "incr sz r =
     (let r1 = r\<lparr>m_pos := m_pos r + 1\<rparr>
      in if m_pos r1 = m_filled r1 then
           (case refill sz (-1) r1 of Inl e \<Rightarrow> Inl e | Inr (_, r2) \<Rightarrow> Inr r2)
         else Inr r1)"

text \<open>
  \<open>goto_set\<close> and \<open>goto_end\<close> are declared \<open>bool\<close> but return nothing; only their
  effect on the stream is modelled.
\<close>

definition goto_set :: "nat \<Rightarrow> reader \<Rightarrow> stream_error + reader" where
  "goto_set sz r =
     (case refill sz (-1) (r\<lparr>m_file := snd (fseek (m_file r) 0 SEEK_SET),
                             m_offset := 0, m_filled := 0\<rparr>) of
        Inl e \<Rightarrow> Inl e
      | Inr (_, r1) \<Rightarrow> Inr r1)"

definition goto_end :: "nat \<Rightarrow> int \<Rightarrow> reader \<Rightarrow> stream_error + reader" where
  "goto_end sz n_elems r =
     (case refill_reverse sz 1 (r\<lparr>m_file := snd (fseek (m_file r) 0 SEEK_END),
                                  m_offset := n_elems, m_filled := 0\<rparr>) of
        Inl e \<Rightarrow> Inl e
      | Inr (_, r1) \<Rightarrow> Inr r1)"

definition read :: "nat \<Rightarrow> reader \<Rightarrow> stream_error + elem \<times> reader" where
  "read sz r =
     (case buf_get (m_buffer r) (m_pos r) of
        Inl e \<Rightarrow> Inl e
      | Inr ret \<Rightarrow>
          (let r1 = r\<lparr>m_pos := m_pos r + 1\<rparr>
           in if m_pos r1 = m_filled r1 then
                (case refill sz (-1) r1 of Inl e \<Rightarrow> Inl e | Inr (_, r2) \<Rightarrow> Inr (ret, r2))
              else Inr (ret, r1)))"

text \<open>\<open>empty()\<close>: \<open>!m_filled && !refill()\<close>; the refill runs only when the window is empty.\<close>

definition empty :: "nat \<Rightarrow> reader \<Rightarrow> stream_error + bool \<times> reader" where
  "empty sz r =
     (if m_filled r \<noteq> 0 then Inr (False, r)
      else case refill sz (-1) r of
             Inl e \<Rightarrow> Inl e
           | Inr (k, r1) \<Rightarrow> Inr (k = 0, r1))"

definition getpos :: "reader \<Rightarrow> int" where
  "getpos r = m_pos r"

definition setpos :: "int \<Rightarrow> reader \<Rightarrow> reader" where
  "setpos p r = r\<lparr>m_pos := p\<rparr>"

section \<open>Reverse access\<close>

definition read_reverse :: "nat \<Rightarrow> bool \<Rightarrow> reader \<Rightarrow> stream_error + elem \<times> reader" where
  "read_reverse sz B r =
     (case (if B then refill_reverse sz 1 r else Inr (0, r)) of
        Inl e \<Rightarrow> Inl e
      | Inr (_, r1) \<Rightarrow>
          (case buf_get (m_buffer r1) (m_pos r1) of
             Inl e \<Rightarrow> Inl e
           | Inr ret \<Rightarrow>
               (let r2 = r1\<lparr>m_pos := m_pos r1 - 1\<rparr>
                in if m_pos r2 = -1 then
                     (case refill_reverse sz 2 r2 of Inl e \<Rightarrow> Inl e | Inr (_, r3) \<Rightarrow> Inr (ret, r3))
                   else Inr (ret, r2))))"

definition empty_reverse :: "nat \<Rightarrow> reader \<Rightarrow> stream_error + bool \<times> reader" where
  "empty_reverse sz r =
     (if m_filled r \<noteq> 0 then Inr (False, r)
      else case refill_reverse sz 2 r of
             Inl e \<Rightarrow> Inl e
           | Inr (k, r1) \<Rightarrow> Inr (k = 0, r1))"

end
