(* ===== verification/Reader_Forward.thy ===== *)
theory Reader_Forward
  imports Reader
begin

text \<open>
  Forward scanning with \<open>stream_reader\<close>: the window invariant that the constructor,
  \<open>refill()\<close>, \<open>read\<close>, \<open>operator++\<close>, \<open>empty\<close> and \<open>goto_set\<close> keep, and the
  refinement of these operations to a cursor over the list \<open>xs\<close> of records the file
  holds. The abstract cursor of a reader is \<open>m_offset + m_pos\<close>. Also: rewinding
  with \<open>getpos\<close>/\<open>setpos\<close> inside the window, and what a buffer smaller than one
  record does.
\<close>

section \<open>Invariants\<close>

text \<open>
  \<open>frame\<close>: the handle holds the file of records \<open>xs\<close> of \<open>sz\<close> bytes each, and the
  buffer has its allocated size. \<open>window\<close>: the filled slots hold the records
  \<open>m_offset\<close>, \<open>m_offset + 1\<close>, \dots of the file.
\<close>

definition frame :: "nat \<Rightarrow> elem list \<Rightarrow> reader \<Rightarrow> bool" where
  "frame sz xs r \<longleftrightarrow>
     0 < sz \<and> uniform sz xs \<and> contents (m_file r) = concat xs \<and>
     0 < m_bufelems r \<and> m_bufelems r < 2 ^ 63 \<and> length (m_buffer r) = nat (m_bufelems r) \<and>
     0 \<le> m_offset r \<and> 0 \<le> m_filled r \<and> m_filled r \<le> m_bufelems r"

definition window :: "elem list \<Rightarrow> reader \<Rightarrow> bool" where
  "window xs r \<longleftrightarrow>
     m_offset r + m_filled r \<le> int (length xs) \<and>
     take (nat (m_filled r)) (m_buffer r) = take (nat (m_filled r)) (drop (nat (m_offset r)) xs)"

text \<open>
  \<open>fwd_inv\<close>: moreover the file position is just past the window, a window shorter than
  the buffer ends at the end of the file, and the cursor is on a filled slot (or at 0 in
  an empty window).
\<close>

definition fwd_inv :: "nat \<Rightarrow> elem list \<Rightarrow> reader \<Rightarrow> bool" where
  "fwd_inv sz xs r \<longleftrightarrow>
     frame sz xs r \<and> window xs r \<and>
     fpos (m_file r) = nat (m_offset r + m_filled r) * sz \<and>
     (m_filled r < m_bufelems r \<longrightarrow> m_offset r + m_filled r = int (length xs)) \<and>
     0 \<le> m_pos r \<and> (0 < m_filled r \<longrightarrow> m_pos r < m_filled r) \<and> (m_filled r = 0 \<longrightarrow> m_pos r = 0)"

definition cur :: "reader \<Rightarrow> nat" where
  "cur r = nat (m_offset r + m_pos r)"

lemmas fwd_defs = fwd_inv_def frame_def window_def cur_def

section \<open>Client loops\<close>

text \<open>
  The two ways a caller consumes a forward stream (specification, section 8): \<open>k\<close>
  consecutive \<open>read()\<close>s, and \<open>while (!s.empty()) out.push_back(s.read());\<close>. The
  second is given fuel, one unit per iteration; running out is \<open>None\<close>.
\<close>

fun read_n :: "nat \<Rightarrow> nat \<Rightarrow> reader \<Rightarrow> stream_error + elem list \<times> reader" where
  "read_n sz 0 r = Inr ([], r)"
| "read_n sz (Suc k) r =
     (case read sz r of
        Inl e \<Rightarrow> Inl e
      | Inr (x, r1) \<Rightarrow> (case read_n sz k r1 of Inl e \<Rightarrow> Inl e | Inr (ys, r2) \<Rightarrow> Inr (x # ys, r2)))"

fun drain :: "nat \<Rightarrow> nat \<Rightarrow> reader \<Rightarrow> (stream_error + elem list) option" where
  "drain sz 0 r = None"
| "drain sz (Suc fuel) r =
     (case empty sz r of
        Inl e \<Rightarrow> Some (Inl e)
      | Inr (True, r1) \<Rightarrow> Some (Inr [])
      | Inr (False, r1) \<Rightarrow>
          (case read sz r1 of
             Inl e \<Rightarrow> Some (Inl e)
           | Inr (x, r2) \<Rightarrow> map_option (map_sum id (Cons x)) (drain sz fuel r2)))"

section \<open>The sequential refill\<close>

lemma size_t_of_bufelems [simp]:
  "frame sz xs r \<Longrightarrow> size_t_of (m_bufelems r) = nat (m_bufelems r)"
  by (simp add: frame_def size_t_of_int)

text \<open>
  \<open>refill()\<close> from a window whose end is the file position loads the next
  \<open>min m_bufelems (n - end)\<close> records.
\<close>

lemma refill_next:
  assumes fr: "frame sz xs r"
    and p: "fpos (m_file r) = nat (m_offset r + m_filled r) * sz"
    and le: "m_offset r + m_filled r \<le> int (length xs)"
  defines "j \<equiv> nat (m_offset r + m_filled r)"
  defines "k \<equiv> min (nat (m_bufelems r)) (length xs - j)"
  shows "refill sz (-1) r =
           Inr (int k, r\<lparr>m_offset := int j, m_filled := int k,
                         m_buffer := take k (drop j xs) @ drop k (m_buffer r),
                         m_file := (m_file r)\<lparr>fpos := (j + k) * sz\<rparr>, m_pos := 0\<rparr>)"
proof -
  have rd: "fread sz (nat (m_bufelems r)) (m_buffer r) (m_file r) =
              Inr (k, take k (drop j xs) @ drop k (m_buffer r), (m_file r)\<lparr>fpos := (j + k) * sz\<rparr>)"
    using fr p unfolding j_def k_def frame_def by (intro fread_uniform) simp_all
  have "m_offset r + m_filled r = int j"
    using fr unfolding j_def frame_def by simp
  then show ?thesis
    using fr rd by (simp add: refill_def)
qed

text \<open>
  A window freshly loaded from record \<open>j\<close> (what every refill produces from an aligned
  position) satisfies the forward invariant, with the cursor on record \<open>j\<close>.
\<close>

lemma loaded_fwd_inv:
  assumes fr: "frame sz xs r" and c: "m_bufelems r = int cap" and jn: "j \<le> length xs"
  defines "k \<equiv> min cap (length xs - j)"
  shows "fwd_inv sz xs (r\<lparr>m_offset := int j, m_filled := int k,
                           m_buffer := take k (drop j xs) @ drop k (m_buffer r),
                           m_file := (m_file r)\<lparr>fpos := (j + k) * sz\<rparr>, m_pos := 0\<rparr>) \<and>
         cur (r\<lparr>m_offset := int j, m_filled := int k,
                 m_buffer := take k (drop j xs) @ drop k (m_buffer r),
                 m_file := (m_file r)\<lparr>fpos := (j + k) * sz\<rparr>, m_pos := 0\<rparr>) = j"
    (is "fwd_inv sz xs ?r' \<and> cur ?r' = j")
proof -
  have fr': "frame sz xs ?r'"
    using fr c unfolding frame_def k_def by simp
  have win': "window xs ?r'"
    using jn c fr unfolding window_def frame_def k_def by simp
  have eof': "m_filled ?r' < m_bufelems ?r' \<longrightarrow> m_offset ?r' + m_filled ?r' = int (length xs)"
    using jn c unfolding k_def by simp
  show ?thesis
    using fr' win' eof' unfolding fwd_inv_def cur_def by (simp add: nat_int_add)
qed

lemma refill_next_fwd_inv:
  assumes fr: "frame sz xs r"
    and p: "fpos (m_file r) = nat (m_offset r + m_filled r) * sz"
    and le: "m_offset r + m_filled r \<le> int (length xs)"
    and rf: "refill sz (-1) r = Inr (k, r')"
  shows "fwd_inv sz xs r' \<and> cur r' = nat (m_offset r + m_filled r) \<and> k = m_filled r'"
proof -
  obtain j cap where j: "m_offset r + m_filled r = int j" and cap: "m_bufelems r = int cap"
    using fr unfolding frame_def by (metis add_nonneg_nonneg less_imp_le nonneg_int_cases)
  have jn: "j \<le> length xs"
    using le j by simp
  show ?thesis
    using refill_next [OF fr p le] rf loaded_fwd_inv [OF fr cap jn] j cap by auto
qed


text \<open>A reader whose cursor is before the end of the file has a record under its cursor.\<close>

lemma fwd_inv_cur_le: "fwd_inv sz xs r \<Longrightarrow> cur r \<le> length xs"
  unfolding fwd_defs by auto

lemma fwd_inv_cursor:
  assumes inv: "fwd_inv sz xs r" and lt: "cur r < length xs"
  shows "0 \<le> m_pos r \<and> m_pos r < m_filled r \<and> buf_get (m_buffer r) (m_pos r) = Inr (xs ! cur r)"
proof -
  have filled: "0 < m_filled r"
  proof (rule ccontr)
    assume "\<not> 0 < m_filled r"
    then have "m_filled r = 0" "m_pos r = 0"
      using inv by (auto simp: fwd_defs)
    moreover have "0 < m_bufelems r"
      using inv by (simp add: fwd_defs)
    ultimately have "cur r = length xs"
      using inv by (simp add: fwd_defs)
    then show False
      using lt by simp
  qed
  then have p: "0 \<le> m_pos r" "m_pos r < m_filled r"
    using inv by (simp_all add: fwd_defs)
  obtain ofs fl p where ofp: "m_offset r = int ofs" "m_filled r = int fl" "m_pos r = int p"
    using inv p unfolding fwd_defs by (metis nonneg_int_cases)
  have buf: "m_buffer r ! p = take fl (m_buffer r) ! p"
    using p ofp by simp
  have win: "take fl (m_buffer r) = take fl (drop ofs xs)" "ofs + fl \<le> length xs"
    using inv ofp by (simp_all add: fwd_defs)
  have "int p < int (length (m_buffer r))"
    using inv p ofp by (simp add: fwd_defs)
  then show ?thesis
    using p ofp buf win by (simp add: cur_def nat_int_add)
qed

text \<open>
  The cursor step shared by \<open>read\<close> and \<open>operator++\<close>: \<open>++m_pos\<close>, and
  \<open>refill()\<close> when the cursor leaves the window. Either way the invariant holds again and
  the abstract cursor has moved by one.
\<close>

lemma advance_fwd:
  assumes inv: "fwd_inv sz xs r" and p: "0 \<le> m_pos r" "m_pos r < m_filled r"
  defines "r1 \<equiv> r\<lparr>m_pos := m_pos r + 1\<rparr>"
  shows "if m_pos r1 = m_filled r1
         then \<exists>k r2. refill sz (-1) r1 = Inr (k, r2) \<and> fwd_inv sz xs r2 \<and> cur r2 = Suc (cur r)
         else fwd_inv sz xs r1 \<and> cur r1 = Suc (cur r)"
proof (cases "m_pos r1 = m_filled r1")
  case True
  have fr: "frame sz xs r1" and fp: "fpos (m_file r1) = nat (m_offset r1 + m_filled r1) * sz"
    and le: "m_offset r1 + m_filled r1 \<le> int (length xs)"
    using inv by (simp_all add: r1_def fwd_defs)
  obtain k r2 where rf: "refill sz (-1) r1 = Inr (k, r2)"
    using refill_next [OF fr fp le] by simp
  have "nat (m_offset r1 + m_filled r1) = Suc (cur r)"
    using True inv p by (simp add: r1_def fwd_defs nat_add_distrib)
  then show ?thesis
    using True rf refill_next_fwd_inv [OF fr fp le rf] by auto
next
  case False
  then show ?thesis
    using inv p by (simp add: r1_def fwd_defs nat_add_distrib)
qed

section \<open>Forward operations refine a cursor over the file\<close>

lemma read_fwd:
  assumes inv: "fwd_inv sz xs r" and lt: "cur r < length xs"
  shows "\<exists>r'. read sz r = Inr (xs ! cur r, r') \<and> fwd_inv sz xs r' \<and> cur r' = Suc (cur r)"
proof -
  have c: "0 \<le> m_pos r" "m_pos r < m_filled r" "buf_get (m_buffer r) (m_pos r) = Inr (xs ! cur r)"
    using fwd_inv_cursor [OF inv lt] by simp_all
  show ?thesis
    using advance_fwd [OF inv c(1,2)] c(3) by (auto simp: read_def Let_def split: if_splits)
qed

lemma incr_fwd:
  assumes inv: "fwd_inv sz xs r" and lt: "cur r < length xs"
  shows "\<exists>r'. incr sz r = Inr r' \<and> fwd_inv sz xs r' \<and> cur r' = Suc (cur r)"
proof -
  have c: "0 \<le> m_pos r" "m_pos r < m_filled r"
    using fwd_inv_cursor [OF inv lt] by simp_all
  show ?thesis
    using advance_fwd [OF inv c] by (auto simp: incr_def Let_def split: if_splits)
qed

lemma peek_fwd:
  "fwd_inv sz xs r \<Longrightarrow> cur r < length xs \<Longrightarrow> peek r = Inr (xs ! cur r)"
  by (simp add: peek_def fwd_inv_cursor)

lemma empty_fwd:
  assumes inv: "fwd_inv sz xs r"
  shows "\<exists>r'. empty sz r = Inr (cur r = length xs, r') \<and> fwd_inv sz xs r' \<and> cur r' = cur r"
proof (cases "m_filled r = 0")
  case True
  have fr: "frame sz xs r" and fp: "fpos (m_file r) = nat (m_offset r + m_filled r) * sz"
    and le: "m_offset r + m_filled r \<le> int (length xs)"
    using inv by (simp_all add: fwd_defs)
  have eof: "m_offset r = int (length xs)" "m_pos r = 0"
    using inv True by (simp_all add: fwd_defs)
  obtain k r' where rf: "refill sz (-1) r = Inr (k, r')"
    using refill_next [OF fr fp le] by simp
  have "k = 0"
    using refill_next [OF fr fp le] rf True eof by simp
  then show ?thesis
    using True eof rf refill_next_fwd_inv [OF fr fp le rf] by (simp add: empty_def cur_def)
next
  case False
  then have "cur r < length xs"
    using inv unfolding fwd_defs by (auto simp: nat_less_iff)
  then show ?thesis
    using False inv by (simp add: empty_def)
qed

section \<open>Construction and rewinding\<close>

lemma stream_reader_fwd:
  assumes fs: "fs fname = Some (concat xs)" and sz: "0 < sz" "uniform sz xs"
    and bytes: "int sz \<le> buf_bytes" "buf_bytes < 2 ^ 63"
  shows "\<exists>r. stream_reader sz fs fname buf_bytes = Inr r \<and> fwd_inv sz xs r \<and> cur r = 0 \<and>
             m_bufelems r * int sz \<le> buf_bytes"
proof -
  define cap where "cap = nat buf_bytes div sz"
  have ce: "long_of (size_t_of buf_bytes div sz) = int cap" "alloc_elems (int cap) sz = cap"
    using ctor_bufelems [of buf_bytes sz] sz bytes by (simp_all add: cap_def)
  have c0: "0 < cap"
    using sz bytes by (simp add: cap_def div_greater_zero_iff le_nat_iff)
  have "cap \<le> nat buf_bytes"
    unfolding cap_def by (rule div_le_dividend)
  then have c1: "int cap < 2 ^ 63"
    using bytes by linarith
  define r0 where "r0 = \<lparr>m_file = \<lparr>contents = concat xs, fpos = 0\<rparr>, m_bufelems = int cap, m_filled = 0,
                         m_pos = 0, m_offset = 0, m_buffer = replicate cap (replicate sz 0)\<rparr>"
  have fr: "frame sz xs r0" and fp: "fpos (m_file r0) = nat (m_offset r0 + m_filled r0) * sz"
    and le: "m_offset r0 + m_filled r0 \<le> int (length xs)"
    using sz c0 c1 by (simp_all add: r0_def frame_def)
  obtain k r where rf: "refill sz (-1) r0 = Inr (k, r)"
    using refill_next [OF fr fp le] by simp
  have "stream_reader sz fs fname buf_bytes = Inr r"
    using fs rf by (simp add: stream_reader_def file_open_def ce r0_def)
  moreover have "m_bufelems r = int cap"
    using refill_next [OF fr fp le] rf by (auto simp: r0_def)
  moreover have "int cap * int sz \<le> buf_bytes"
  proof -
    have "cap * sz \<le> nat buf_bytes"
      unfolding cap_def by (rule div_times_less_eq_dividend)
    moreover have "0 \<le> buf_bytes"
      using bytes by simp
    ultimately show ?thesis
      using le_nat_iff [of buf_bytes "cap * sz"] by simp
  qed
  ultimately show ?thesis
    using refill_next_fwd_inv [OF fr fp le rf] by (simp add: r0_def)
qed

lemma goto_set_fwd:
  assumes fr: "frame sz xs r"
  shows "\<exists>r'. goto_set sz r = Inr r' \<and> fwd_inv sz xs r' \<and> cur r' = 0"
proof -
  define r1 where "r1 = r\<lparr>m_file := snd (fseek (m_file r) 0 SEEK_SET), m_offset := 0, m_filled := 0\<rparr>"
  have fr1: "frame sz xs r1" and fp: "fpos (m_file r1) = nat (m_offset r1 + m_filled r1) * sz"
    and le: "m_offset r1 + m_filled r1 \<le> int (length xs)"
    using fr by (simp_all add: r1_def frame_def)
  obtain k r' where rf: "refill sz (-1) r1 = Inr (k, r')"
    using refill_next [OF fr1 fp le] by simp
  then show ?thesis
    using refill_next_fwd_inv [OF fr1 fp le rf] by (simp add: goto_set_def r1_def)
qed

section \<open>Client loops\<close>

lemma read_n_fwd:
  "fwd_inv sz xs r \<Longrightarrow> cur r + k \<le> length xs \<Longrightarrow>
   \<exists>r'. read_n sz k r = Inr (take k (drop (cur r) xs), r') \<and> fwd_inv sz xs r' \<and> cur r' = cur r + k"
proof (induction k arbitrary: r)
  case 0
  then show ?case by simp
next
  case (Suc k)
  obtain r1 where r1: "read sz r = Inr (xs ! cur r, r1)" "fwd_inv sz xs r1" "cur r1 = Suc (cur r)"
    using read_fwd [OF Suc.prems(1)] Suc.prems(2) by auto
  obtain r' where r': "read_n sz k r1 = Inr (take k (drop (cur r1) xs), r')" "fwd_inv sz xs r'"
      "cur r' = cur r1 + k"
    using Suc.IH [OF r1(2)] Suc.prems(2) r1(3) by auto
  have "drop (cur r) xs = xs ! cur r # drop (Suc (cur r)) xs"
    using Suc.prems(2) by (simp add: Cons_nth_drop_Suc)
  then have "xs ! cur r # take k (drop (Suc (cur r)) xs) = take (Suc k) (drop (cur r) xs)"
    by simp
  then show ?case
    using r1 r' by simp
qed

lemma drain_fwd:
  "fwd_inv sz xs r \<Longrightarrow> length xs - cur r < fuel \<Longrightarrow> drain sz fuel r = Some (Inr (drop (cur r) xs))"
proof (induction fuel arbitrary: r)
  case 0
  then show ?case by simp
next
  case (Suc fuel)
  obtain r1 where e: "empty sz r = Inr (cur r = length xs, r1)" "fwd_inv sz xs r1" "cur r1 = cur r"
    using empty_fwd [OF Suc.prems(1)] by auto
  have le: "cur r \<le> length xs"
    by (rule fwd_inv_cur_le [OF Suc.prems(1)])
  show ?case
  proof (cases "cur r = length xs")
    case True
    then show ?thesis using e by simp
  next
    case False
    then have lt: "cur r1 < length xs"
      using le e(3) by simp
    obtain r2 where r2: "read sz r1 = Inr (xs ! cur r1, r2)" "fwd_inv sz xs r2" "cur r2 = Suc (cur r1)"
      using read_fwd [OF e(2) lt] by auto
    have "drain sz fuel r2 = Some (Inr (drop (cur r2) xs))"
      using Suc.IH [OF r2(2)] Suc.prems(2) r2(3) e(3) lt by simp
    then show ?thesis
      using False e r2 lt by (simp add: Cons_nth_drop_Suc)
  qed
qed

text \<open>\<open>read_n\<close> at a numeral count, for evaluating concrete runs.\<close>

lemma read_n_numeral:
  "read_n sz (numeral k) r =
     (case read sz r of
        Inl e \<Rightarrow> Inl e
      | Inr (x, r1) \<Rightarrow> (case read_n sz (pred_numeral k) r1 of Inl e \<Rightarrow> Inl e | Inr (ys, r2) \<Rightarrow> Inr (x # ys, r2)))"
  by (simp add: numeral_eq_Suc)

text \<open>Reads that stay inside the window move only the cursor.\<close>

lemma read_n_in_window:
  "0 \<le> m_pos r \<Longrightarrow> m_pos r + int k < m_filled r \<Longrightarrow> m_filled r \<le> int (length (m_buffer r)) \<Longrightarrow>
   \<exists>ys. read_n sz k r = Inr (ys, r\<lparr>m_pos := m_pos r + int k\<rparr>)"
proof (induction k arbitrary: r)
  case 0
  then show ?case by simp
next
  case (Suc k)
  let ?r1 = "r\<lparr>m_pos := m_pos r + 1\<rparr>"
  have "read sz r = Inr (m_buffer r ! nat (m_pos r), ?r1)"
    using Suc.prems by (simp add: read_def)
  moreover obtain ys where "read_n sz k ?r1 = Inr (ys, ?r1\<lparr>m_pos := m_pos ?r1 + int k\<rparr>)"
    using Suc.IH [of ?r1] Suc.prems by auto
  ultimately show ?case
    by (simp add: add.assoc)
qed

section \<open>Error behaviour\<close>

text \<open>
  C17. A buffer smaller than one record: \<open>m_bufelems = buf_bytes / sizeof(T)\<close> is 0, the
  constructor succeeds with an empty buffer, and every refill loads nothing; so
  \<open>empty()\<close> is true at once whatever the file holds, and a \<open>read()\<close> accesses the
  zero-length buffer out of bounds.
\<close>

theorem small_buffer_reads_nothing:
  assumes "fs fname = Some c" "0 \<le> buf_bytes" "buf_bytes < int sz" "buf_bytes < 2 ^ 63"
  shows "\<exists>r r1. stream_reader sz fs fname buf_bytes = Inr r \<and> m_bufelems r = 0 \<and>
           empty sz r = Inr (True, r1) \<and> read sz r1 = Inl Out_of_bounds"
proof -
  have "size_t_of buf_bytes = nat buf_bytes"
    using assms(2,4) by (simp add: size_t_of_int)
  moreover have "nat buf_bytes < sz"
    using assms(2,3) by (simp add: nat_less_iff)
  ultimately have "size_t_of buf_bytes div sz = 0"
    by simp
  moreover have "size_t_of 0 = 0"
    by (simp add: size_t_of_int)
  ultimately show ?thesis
    using assms(1) by (simp add: stream_reader_def file_open_def refill_def fread_def empty_def read_def
        buf_get_def Let_def chunks.simps)
qed

text \<open>
  C29. Construction fails exactly on an open failure: for every buffer size in
  \<open>[0, 2^63)\<close>, the constructor's first refill asks \<open>fread\<close> for \<open>m_bufelems\<close>
  records and the buffer \<open>malloc(m_bufelems * sizeof(T))\<close> holds exactly that many, so
  \<open>stream_reader\<close> returns an error if and only if the file does not exist, and the
  error is then the open failure. (A negative size is excluded: there the C
  \<open>malloc\<close> of nearly \<open>2^64\<close> bytes returns an unchecked \<open>NULL\<close>, which the model,
  without allocation failure, does not represent.)
\<close>

theorem stream_reader_error:
  assumes "0 < sz" "0 \<le> b" "b < 2 ^ 63"
  shows "stream_reader sz fs fname b = Inl e \<longleftrightarrow> fs fname = None \<and> e = Open_failure"
proof (cases "fs fname")
  case None
  then show ?thesis
    by (auto simp: stream_reader_def file_open_def)
next
  case (Some c)
  obtain k buf f where "fread sz (size_t_of b div sz) (replicate (size_t_of b div sz) (replicate sz 0))
      \<lparr>contents = c, fpos = 0\<rparr> = Inr (k, buf, f)"
    using fread_ok [OF assms(1), of "size_t_of b div sz" "replicate (size_t_of b div sz) (replicate sz 0)"
        "\<lparr>contents = c, fpos = 0\<rparr>"] by auto
  then show ?thesis
    using Some ctor_quotient [OF assms(1), of b] by (simp add: stream_reader_def file_open_def refill_def Let_def)
qed

section \<open>The read of the last record\<close>

text \<open>
  C15. Reading the last record of a file always ends with one more refill, which loads
  nothing: on every well-formed reader whose cursor is on the last record, the window
  is non-empty before \<open>read()\<close>, and after it the window is empty at offset \<open>n\<close>, the
  number of records. So a forward scan of \<open>n\<close> records in windows of \<open>m_bufelems\<close>
  records performs one refill beyond the windows that hold records.
\<close>

theorem read_last_refills_empty:
  assumes inv: "fwd_inv sz xs r" and last: "Suc (cur r) = length xs"
  shows "0 < m_filled r \<and>
         (\<exists>r'. read sz r = Inr (xs ! cur r, r') \<and> m_filled r' = 0 \<and> m_offset r' = int (length xs) \<and>
               m_pos r' = 0)"
proof -
  have lt: "cur r < length xs"
    using last by simp
  have f: "0 < m_filled r"
    using fwd_inv_cursor [OF inv lt] by simp
  obtain r' where r': "read sz r = Inr (xs ! cur r, r')" "fwd_inv sz xs r'" "cur r' = length xs"
    using read_fwd [OF inv lt] last by auto
  have "m_filled r' = 0"
  proof (rule ccontr)
    assume "m_filled r' \<noteq> 0"
    then show False
      using r'(2,3) by (auto simp: fwd_defs)
  qed
  moreover have "m_pos r' = 0" "0 \<le> m_offset r'"
    using r'(2) calculation by (simp_all add: fwd_defs)
  ultimately show ?thesis
    using f r'(1,3) by (auto simp: cur_def)
qed

section \<open>Rewinding within the window\<close>

text \<open>
  C22. \<open>getpos\<close>/\<open>setpos\<close> round trip: saving the cursor with \<open>getpos()\<close>, reading
  \<open>k\<close> records that stay in the resident window, and restoring it with
  \<open>setpos()\<close> gives back exactly the reader before the reads, so the same \<open>k\<close>
  records --- those after the cursor in the file --- are read again.
\<close>

theorem setpos_rewinds:
  assumes inv: "fwd_inv sz xs r" and k: "m_pos r + int k < m_filled r"
  shows "\<exists>r1. read_n sz k r = Inr (take k (drop (cur r) xs), r1) \<and> setpos (getpos r) r1 = r"
proof -
  have p: "0 \<le> m_pos r" "m_filled r \<le> int (length (m_buffer r))"
    using inv by (simp_all add: fwd_inv_def frame_def)
  obtain ys where ys: "read_n sz k r = Inr (ys, r\<lparr>m_pos := m_pos r + int k\<rparr>)"
    using read_n_in_window [OF p(1) k p(2)] by blast
  have "m_offset r + m_pos r + int k \<le> int (length xs)" "0 \<le> m_offset r"
    using inv k by (simp_all add: fwd_defs)
  then have "int (cur r + k) \<le> int (length xs)"
    using p(1) by (simp add: cur_def)
  then have "cur r + k \<le> length xs"
    by linarith
  then obtain r' where r': "read_n sz k r = Inr (take k (drop (cur r) xs), r')"
    using read_n_fwd [OF inv] by blast
  then have "r' = r\<lparr>m_pos := m_pos r + int k\<rparr>"
    using ys by simp
  then show ?thesis
    using r' by (simp add: setpos_def getpos_def)
qed

end
