(* ===== verification/Reader_Reverse.thy ===== *)
theory Reader_Reverse
  imports Reader_Forward
begin

text \<open>
  Reverse scanning with \<open>stream_reader\<close>: \<open>goto_end(n)\<close> followed by
  \<open>read_reverse()\<close> and \<open>empty_reverse()\<close>. The reverse invariant \<open>rev_inv\<close> keeps the
  file position at the end of the window, as the forward one does, and a window shorter
  than the buffer starts at record 0; an emptied window (\<open>m_filled = 0\<close>) means the
  region before it is used up, with \<open>m_offset = 0\<close>. The abstract reverse cursor
  \<open>rcur\<close> is the number of records not yet read backward. The C arithmetic of
  \<open>refill_reverse\<close> (an unsigned 64-bit product, negated and passed as \<open>long\<close>) is
  exact as long as the file and twice the buffer hold fewer than \<open>2^63\<close> bytes; the
  invariant carries these bounds.
\<close>

section \<open>Invariant and client loops\<close>

definition rev_inv :: "nat \<Rightarrow> elem list \<Rightarrow> reader \<Rightarrow> bool" where
  "rev_inv sz xs r \<longleftrightarrow>
     frame sz xs r \<and> int (length xs * sz) < 2 ^ 63 \<and> m_bufelems r * int sz * 2 < 2 ^ 63 \<and>
     fpos (m_file r) \<le> length (concat xs) \<and>
     (0 < m_filled r \<longrightarrow>
        window xs r \<and> fpos (m_file r) = nat (m_offset r + m_filled r) * sz \<and>
        (m_filled r < m_bufelems r \<longrightarrow> m_offset r = 0) \<and> 0 \<le> m_pos r \<and> m_pos r < m_filled r) \<and>
     (m_filled r = 0 \<longrightarrow> m_offset r = 0)"

definition rcur :: "reader \<Rightarrow> nat" where
  "rcur r = (if m_filled r = 0 then 0 else nat (m_offset r + m_pos r + 1))"

text \<open>
  The reverse client loop of the specification (section 8), with fuel:
  \<open>while (!s.empty_reverse()) out.push_back(s.read_reverse());\<close>
\<close>

fun drain_rev :: "nat \<Rightarrow> nat \<Rightarrow> reader \<Rightarrow> (stream_error + elem list) option" where
  "drain_rev sz 0 r = None"
| "drain_rev sz (Suc fuel) r =
     (case empty_reverse sz r of
        Inl e \<Rightarrow> Some (Inl e)
      | Inr (True, r1) \<Rightarrow> Some (Inr [])
      | Inr (False, r1) \<Rightarrow>
          (case read_reverse sz False r1 of
             Inl e \<Rightarrow> Some (Inl e)
           | Inr (x, r2) \<Rightarrow> map_option (map_sum id (Cons x)) (drain_rev sz fuel r2)))"

text \<open>\<open>k\<close> consecutive \<open>read_reverse(false)\<close> calls.\<close>

fun read_rev_n :: "nat \<Rightarrow> nat \<Rightarrow> reader \<Rightarrow> stream_error + elem list \<times> reader" where
  "read_rev_n sz 0 r = Inr ([], r)"
| "read_rev_n sz (Suc k) r =
     (case read_reverse sz False r of
        Inl e \<Rightarrow> Inl e
      | Inr (x, r1) \<Rightarrow> (case read_rev_n sz k r1 of Inl e \<Rightarrow> Inl e | Inr (ys, r2) \<Rightarrow> Inr (x # ys, r2)))"

text \<open>
  The reverse refill algorithm of the specification (section 4.1, "Reverse refill
  algorithm") in unbounded natural numbers: the reference against which the \<open>size_t\<close>
  computation of \<open>refill_reverse\<close> is compared.
\<close>

definition refill_reverse_ref :: "nat \<Rightarrow> nat \<Rightarrow> reader \<Rightarrow> stream_error + int \<times> reader" where
  "refill_reverse_ref sz time r =
     (let amount = nat (m_bufelems r) * sz * time;
          B = amount \<le> fpos (m_file r);
          f1 = (if B then (m_file r)\<lparr>fpos := fpos (m_file r) - amount\<rparr> else (m_file r)\<lparr>fpos := 0\<rparr>);
          cnt = (if B then nat (m_bufelems r) else nat (m_offset r))
      in case fread sz cnt (m_buffer r) f1 of
           Inl e \<Rightarrow> Inl e
         | Inr (k, buf, f2) \<Rightarrow>
             (let r2 = r\<lparr>m_file := f2, m_buffer := buf, m_filled := int k\<rparr>
              in if m_offset r2 = 0 then Inr (0, r2\<lparr>m_filled := 0\<rparr>)
                 else Inr (int k, r2\<lparr>m_offset := m_offset r2 - int k, m_pos := int k - 1\<rparr>)))"

section \<open>The C arithmetic of refill_reverse\<close>

lemma rr_test:
  assumes "int (c * sz * u) < 2 ^ 63" "int (fpos f) < 2 ^ 63"
  shows "ulong_ge (ftell f) (int c * int sz * int u) \<longleftrightarrow> c * sz * u \<le> fpos f"
proof -
  have "int c * int sz * int u = int (c * sz * u)"
    by simp
  then show ?thesis
    using assms by (simp add: ftell_def ulong_ge_int del: of_nat_mult)
qed

lemma rr_seek:
  assumes "int (c * sz * u) < 2 ^ 63" "c * sz * u \<le> fpos f"
  shows "snd (fseek f (neg_ulong_as_long (int c * int sz * int u)) SEEK_CUR) = f\<lparr>fpos := fpos f - c * sz * u\<rparr>"
proof -
  have "int c * int sz * int u = int (c * sz * u)"
    by simp
  then have "neg_ulong_as_long (int c * int sz * int u) = - int (c * sz * u)"
    using assms(1) by (simp add: neg_ulong_as_long_int del: of_nat_mult)
  then show ?thesis
    using fseek_cur_back [OF assms(2)] by (simp del: of_nat_mult)
qed

text \<open>
  Under the bounds, \<open>refill_reverse\<close> is the same computation in unbounded natural
  numbers: the unsigned comparison is \<open>\<le>\<close>, the negated \<open>size_t\<close> moves the position
  back by exactly \<open>m_bufelems * sizeof(T) * time\<close> bytes.
\<close>

lemma refill_reverse_unfold:
  assumes c: "m_bufelems r = int c" "int c < 2 ^ 63" and amt: "int (c * sz * u) < 2 ^ 63"
    and fp: "int (fpos (m_file r)) < 2 ^ 63" and o: "0 \<le> m_offset r" "m_offset r < 2 ^ 63"
  shows "refill_reverse sz (int u) r =
    (let B = c * sz * u \<le> fpos (m_file r);
         f1 = (if B then (m_file r)\<lparr>fpos := fpos (m_file r) - c * sz * u\<rparr> else (m_file r)\<lparr>fpos := 0\<rparr>);
         cnt = (if B then c else nat (m_offset r))
     in case fread sz cnt (m_buffer r) f1 of
          Inl e \<Rightarrow> Inl e
        | Inr (k, buf, f2) \<Rightarrow>
            (let r2 = r\<lparr>m_file := f2, m_buffer := buf, m_filled := int k\<rparr>
             in if m_offset r2 = 0 then Inr (0, r2\<lparr>m_filled := 0\<rparr>)
                else Inr (int k, r2\<lparr>m_offset := m_offset r2 - int k, m_pos := int k - 1\<rparr>)))"
proof -
  have cap: "size_t_of (int c) = c" and off: "size_t_of (m_offset r) = nat (m_offset r)"
    using c(2) o by (simp_all add: size_t_of_int)
  have test: "ulong_ge (ftell (m_file r)) (int c * int sz * int u) \<longleftrightarrow> c * sz * u \<le> fpos (m_file r)"
    by (rule rr_test [OF amt fp])
  have seek: "c * sz * u \<le> fpos (m_file r) \<Longrightarrow>
      snd (fseek (m_file r) (neg_ulong_as_long (int c * int sz * int u)) SEEK_CUR) =
      (m_file r)\<lparr>fpos := fpos (m_file r) - c * sz * u\<rparr>"
    by (rule rr_seek [OF amt])
  show ?thesis
    using c cap off test seek by (simp add: refill_reverse_def Let_def del: of_nat_mult cong: if_cong)
qed

lemma frame_bounds:
  assumes fr: "frame sz xs r" and n: "int (length xs * sz) < 2 ^ 63" and le: "ob \<le> length xs"
  shows "int ob < 2 ^ 63" "int (ob * sz) < 2 ^ 63"
proof -
  have "ob \<le> length xs * sz" "ob * sz \<le> length xs * sz"
    using fr le by (auto simp: frame_def intro: order.trans [OF le] dest: mult_le_mono1 [of _ _ sz])
  then show "int ob < 2 ^ 63" "int (ob * sz) < 2 ^ 63"
    using n by linarith+
qed

text \<open>
  Sliding the window left: from a window ending at record \<open>ob + f\<close>, where \<open>f\<close> is
  \<open>m_bufelems * (time - 1)\<close> (the empty window of \<open>goto_end\<close> for \<open>time = 1\<close>, a full
  one for \<open>time = 2\<close>), \<open>refill_reverse\<close> loads the \<open>min m_bufelems ob\<close> records just
  before record \<open>ob\<close> and puts the cursor on the last of them.
\<close>

lemma refill_reverse_slide:
  assumes fr: "frame sz xs r" and c: "m_bufelems r = int c"
    and amt: "int (c * sz * u) < 2 ^ 63" and n: "int (length xs * sz) < 2 ^ 63"
    and ob: "m_offset r = int ob" "0 < ob" and fp: "fpos (m_file r) = (ob + f) * sz"
    and le: "ob + f \<le> length xs" and fu: "f + c = c * u"
  defines "k \<equiv> min c ob"
  shows "refill_reverse sz (int u) r =
           Inr (int k, r\<lparr>m_file := (m_file r)\<lparr>fpos := ob * sz\<rparr>,
                         m_buffer := take k (drop (ob - k) xs) @ drop k (m_buffer r),
                         m_filled := int k, m_offset := int (ob - k), m_pos := int k - 1\<rparr>)"
proof -
  have sz: "0 < sz" "uniform sz xs" "contents (m_file r) = concat xs" "length (m_buffer r) = c"
    and c63: "int c < 2 ^ 63"
    using fr c by (simp_all add: frame_def)
  have fp63: "int (fpos (m_file r)) < 2 ^ 63"
    using frame_bounds [OF fr n le] fp by simp
  have o63: "m_offset r < 2 ^ 63"
    using frame_bounds [OF fr n, of ob] le ob by simp
  have amt_eq: "c * sz * u = (f + c) * sz"
    using fu by (simp add: algebra_simps)
  note unf = refill_reverse_unfold [OF c c63 amt fp63 _ o63]
  show ?thesis
  proof (cases "c \<le> ob")
    case True
    have B: "c * sz * u \<le> fpos (m_file r)"
      unfolding amt_eq fp using True by (intro mult_le_mono1) simp
    have p1: "fpos (m_file r) - c * sz * u = (ob - c) * sz"
      unfolding amt_eq fp diff_mult_distrib [symmetric] by simp
    have "fread sz c (m_buffer r) ((m_file r)\<lparr>fpos := (ob - c) * sz\<rparr>) =
            Inr (c, take c (drop (ob - c) xs) @ drop c (m_buffer r), (m_file r)\<lparr>fpos := ob * sz\<rparr>)"
      using fread_uniform [of sz xs "(m_file r)\<lparr>fpos := (ob - c) * sz\<rparr>" "ob - c" c "m_buffer r"] sz le True
      by (simp add: min_def)
    then show ?thesis
      using unf B p1 ob True by (simp add: Let_def k_def)
  next
    case False
    have B: "\<not> c * sz * u \<le> fpos (m_file r)"
      unfolding amt_eq fp using False sz(1) by simp
    have "fread sz ob (m_buffer r) ((m_file r)\<lparr>fpos := 0\<rparr>) =
            Inr (ob, take ob xs @ drop ob (m_buffer r), (m_file r)\<lparr>fpos := ob * sz\<rparr>)"
      using fread_uniform [of sz xs "(m_file r)\<lparr>fpos := 0\<rparr>" 0 ob "m_buffer r"] sz le False
      by (simp add: min_def)
    then show ?thesis
      using unf B ob False by (simp add: Let_def k_def)
  qed
qed

text \<open>
  At offset 0 every refill reports exhaustion: the window is emptied, whatever the
  branch taken, and no access leaves the buffer.
\<close>

lemma refill_reverse_exhausted:
  assumes fr: "frame sz xs r" and c: "m_bufelems r = int c"
    and amt: "int (c * sz * u) < 2 ^ 63" and n: "int (length xs * sz) < 2 ^ 63"
    and fp: "fpos (m_file r) \<le> length (concat xs)" and o: "m_offset r = 0"
  shows "\<exists>r'. refill_reverse sz (int u) r = Inr (0, r') \<and> frame sz xs r' \<and> m_filled r' = 0 \<and>
              m_offset r' = 0 \<and> fpos (m_file r') \<le> length (concat xs) \<and> m_bufelems r' = m_bufelems r \<and>
              m_pos r' = m_pos r"
proof -
  have sz: "0 < sz" "uniform sz xs" "contents (m_file r) = concat xs" "length (m_buffer r) = c"
    and c63: "int c < 2 ^ 63"
    using fr c by (simp_all add: frame_def)
  have "int (fpos (m_file r)) \<le> int (length xs * sz)"
    using fp sz by (simp add: length_concat_uniform del: of_nat_mult)
  then have fp63: "int (fpos (m_file r)) < 2 ^ 63"
    using n by linarith
  define B where "B = (c * sz * u \<le> fpos (m_file r))"
  define f1 where "f1 = (if B then (m_file r)\<lparr>fpos := fpos (m_file r) - c * sz * u\<rparr> else (m_file r)\<lparr>fpos := 0\<rparr>)"
  define cnt where "cnt = (if B then c else nat (m_offset r))"
  have unf: "refill_reverse sz (int u) r =
      (case fread sz cnt (m_buffer r) f1 of
         Inl e \<Rightarrow> Inl e
       | Inr (k, buf, f2) \<Rightarrow> Inr (0, r\<lparr>m_file := f2, m_buffer := buf, m_filled := 0\<rparr>))"
    using refill_reverse_unfold [OF c c63 amt fp63] o
    by (simp add: Let_def B_def f1_def cnt_def split: sum.split)
  have "cnt \<le> length (m_buffer r)" "fpos f1 \<le> length (contents f1)"
    using sz fp o by (auto simp: cnt_def f1_def)
  then obtain k buf f2 where rd: "fread sz cnt (m_buffer r) f1 = Inr (k, buf, f2)"
      "length buf = length (m_buffer r)" "contents f2 = contents f1" "fpos f2 \<le> length (contents f1)"
    using fread_ok [OF sz(1)] by blast
  have "contents f1 = concat xs"
    using sz by (simp add: f1_def)
  then show ?thesis
    using unf rd fr o by (simp add: frame_def)
qed

text \<open>The state after a slide satisfies the reverse invariant; \<open>ob\<close> records remain.\<close>

lemma slide_rev_inv:
  assumes fr: "frame sz xs r" and c: "m_bufelems r = int c"
    and n: "int (length xs * sz) < 2 ^ 63" and b: "m_bufelems r * int sz * 2 < 2 ^ 63"
    and ob: "0 < ob" "ob \<le> length xs"
  defines "k \<equiv> min c ob"
  defines "r' \<equiv> r\<lparr>m_file := (m_file r)\<lparr>fpos := ob * sz\<rparr>,
                    m_buffer := take k (drop (ob - k) xs) @ drop k (m_buffer r),
                    m_filled := int k, m_offset := int (ob - k), m_pos := int k - 1\<rparr>"
  shows "rev_inv sz xs r' \<and> rcur r' = ob"
proof -
  have sz: "0 < sz" "uniform sz xs" "contents (m_file r) = concat xs" "length (m_buffer r) = c"
    "0 < c" "int c < 2 ^ 63"
    using fr c by (simp_all add: frame_def)
  have k: "0 < k" "k \<le> c" "k \<le> ob" "k < c \<longrightarrow> k = ob"
    using sz ob by (auto simp: k_def)
  have h1: "int (ob - k) + int k = int ob"
    using k by simp
  have h3: "take k (take k (drop (ob - k) xs) @ drop k (m_buffer r)) = take k (drop (ob - k) xs)"
    using k ob by simp
  have h4: "length (take k (drop (ob - k) xs) @ drop k (m_buffer r)) = c"
    using k ob sz by simp
  have h5: "ob * sz \<le> length (concat xs)"
    using ob sz by (simp add: length_concat_uniform)
  have fr': "frame sz xs r'"
    using fr c h4 k unfolding r'_def frame_def by simp
  have h2: "nat (int ob - int k) = ob - k"
    using k by simp
  show ?thesis
    using fr' n b h1 h2 h3 h5 k ob c unfolding r'_def rev_inv_def window_def rcur_def
    by (simp add: nat_int_add)
qed

lemma rev_inv_exhausted:
  assumes "frame sz xs r" "int (length xs * sz) < 2 ^ 63" "m_bufelems r * int sz * 2 < 2 ^ 63"
    and "fpos (m_file r) \<le> length (concat xs)" "m_filled r = 0" "m_offset r = 0"
  shows "rev_inv sz xs r \<and> rcur r = 0"
  using assms by (simp add: rev_inv_def rcur_def)

lemma rev_inv_rcur_le: "rev_inv sz xs r \<Longrightarrow> rcur r \<le> length xs"
  by (auto simp: rev_inv_def rcur_def window_def frame_def nat_le_iff)

section \<open>Reverse operations refine a backward cursor\<close>

lemma goto_end_rev:
  assumes fr: "frame sz xs r" and n: "int (length xs * sz) < 2 ^ 63"
    and b: "m_bufelems r * int sz * 2 < 2 ^ 63"
  shows "\<exists>r'. goto_end sz (int (length xs)) r = Inr r' \<and> rev_inv sz xs r' \<and> rcur r' = length xs"
proof -
  obtain c where c: "m_bufelems r = int c"
    using fr unfolding frame_def by (metis less_imp_le nonneg_int_cases)
  define r1 where "r1 = r\<lparr>m_file := snd (fseek (m_file r) 0 SEEK_END), m_offset := int (length xs), m_filled := 0\<rparr>"
  have sz: "0 < sz" "uniform sz xs" "contents (m_file r) = concat xs"
    using fr by (simp_all add: frame_def)
  have f1: "m_file r1 = (m_file r)\<lparr>fpos := length (concat xs)\<rparr>"
    using sz by (simp add: r1_def)
  have fr1: "frame sz xs r1" and c1: "m_bufelems r1 = int c"
    using fr c by (simp_all add: r1_def frame_def)
  have amt: "int (c * sz * 1) < 2 ^ 63"
    using b c by simp
  have ge: "goto_end sz (int (length xs)) r =
              (case refill_reverse sz (int 1) r1 of Inl e \<Rightarrow> Inl e | Inr (_, r') \<Rightarrow> Inr r')"
    by (simp add: goto_end_def r1_def)
  show ?thesis
  proof (cases "length xs = 0")
    case True
    have o1: "m_offset r1 = 0" and fp1: "fpos (m_file r1) \<le> length (concat xs)"
      using f1 True by (simp_all add: r1_def)
    obtain r' where r': "refill_reverse sz (int 1) r1 = Inr (0, r')" "frame sz xs r'" "m_filled r' = 0"
        "m_offset r' = 0" "fpos (m_file r') \<le> length (concat xs)" "m_bufelems r' = m_bufelems r1"
      using refill_reverse_exhausted [OF fr1 c1 amt n fp1 o1] by blast
    then show ?thesis
      using ge rev_inv_exhausted [of sz xs r'] n b c c1 True by simp
  next
    case False
    have fp: "fpos (m_file r1) = (length xs + 0) * sz"
      using f1 sz by (simp add: length_concat_uniform)
    have "m_offset r1 = int (length xs)"
      by (simp add: r1_def)
    note sl = refill_reverse_slide [OF fr1 c1 amt n this _ fp]
    have b1: "m_bufelems r1 * int sz * 2 < 2 ^ 63"
      using b by (simp add: r1_def)
    show ?thesis
      using ge sl slide_rev_inv [OF fr1 c1 n b1, of "length xs"] False by simp
  qed
qed

lemma read_reverse_rev:
  assumes inv: "rev_inv sz xs r" and lt: "0 < rcur r"
  shows "\<exists>r'. read_reverse sz False r = Inr (xs ! (rcur r - 1), r') \<and> rev_inv sz xs r' \<and> rcur r' = rcur r - 1"
proof -
  have fl: "0 < m_filled r"
    using lt inv by (auto simp: rcur_def rev_inv_def frame_def split: if_splits)
  have fr: "frame sz xs r" and n: "int (length xs * sz) < 2 ^ 63" and b: "m_bufelems r * int sz * 2 < 2 ^ 63"
    and fpl: "fpos (m_file r) \<le> length (concat xs)" and win: "window xs r"
    and fp: "fpos (m_file r) = nat (m_offset r + m_filled r) * sz"
    and short: "m_filled r < m_bufelems r \<longrightarrow> m_offset r = 0" and p: "0 \<le> m_pos r" "m_pos r < m_filled r"
    using inv fl by (simp_all add: rev_inv_def)
  obtain ob f p' c where nat: "m_offset r = int ob" "m_filled r = int f" "m_pos r = int p'" "m_bufelems r = int c"
    using fr p unfolding frame_def by (metis less_imp_le nonneg_int_cases)
  have wn: "ob + f \<le> length xs" "take f (m_buffer r) = take f (drop ob xs)" "p' < f" "f \<le> c"
    "length (m_buffer r) = c"
    using win fr p nat by (simp_all add: window_def frame_def)
  have rc: "rcur r = ob + p' + 1"
    using fl nat by (simp add: rcur_def nat_int_add)
  have e: "take f (drop ob xs) ! p' = xs ! (ob + p')"
    using wn by simp
  have "m_buffer r ! p' = xs ! (ob + p')"
    using e wn(2,3) nth_take by metis
  define v where "v = xs ! (rcur r - 1)"
  then have x: "buf_get (m_buffer r) (m_pos r) = Inr v"
    using wn nat rc \<open>m_buffer r ! p' = xs ! (ob + p')\<close> by simp
  define r2 where "r2 = r\<lparr>m_pos := m_pos r - 1\<rparr>"
  have rr: "read_reverse sz False r =
      (if m_pos r2 = -1
       then (case refill_reverse sz 2 r2 of Inl e \<Rightarrow> Inl e | Inr (_, r3) \<Rightarrow> Inr (v, r3))
       else Inr (v, r2))"
    using x by (simp add: read_reverse_def r2_def Let_def)
  have fr2: "frame sz xs r2" and c2: "m_bufelems r2 = int c"
    using fr nat by (simp_all add: r2_def frame_def)
  show ?thesis
  proof (cases "p' = 0")
    case False
    have "rev_inv sz xs r2 \<and> rcur r2 = rcur r - 1"
      using inv fl False nat rc by (simp add: r2_def rev_inv_def window_def frame_def rcur_def nat_int_add)
    then show ?thesis
      using rr False nat by (simp add: r2_def v_def)
  next
    case True
    have amt: "int (c * sz * 2) < 2 ^ 63"
      using b nat by simp
    show ?thesis
    proof (cases "ob = 0")
      case True
      obtain r' where r': "refill_reverse sz (int 2) r2 = Inr (0, r')" "frame sz xs r'" "m_filled r' = 0"
          "m_offset r' = 0" "fpos (m_file r') \<le> length (concat xs)" "m_bufelems r' = m_bufelems r2"
        using refill_reverse_exhausted [OF fr2 c2 amt n] fpl nat True by (auto simp: r2_def)
      then show ?thesis
        using rr rev_inv_exhausted [of sz xs r'] n b nat rc True \<open>p' = 0\<close> by (simp add: r2_def v_def)
    next
      case False
      then have full: "f = c"
        using short nat wn by auto
      have fp2: "fpos (m_file r2) = (ob + c) * sz" and o2: "m_offset r2 = int ob"
        using fp nat full by (simp_all add: r2_def nat_int_add)
      have le2: "ob + c \<le> length xs"
        using wn full by simp
      note sl = refill_reverse_slide [OF fr2 c2 amt n o2 _ fp2 le2]
      have b2: "m_bufelems r2 * int sz * 2 < 2 ^ 63"
        using b by (simp add: r2_def)
      have "ob \<le> length xs"
        using le2 by simp
      then show ?thesis
        using rr sl slide_rev_inv [OF fr2 c2 n b2, of ob] False True nat rc by (simp add: r2_def v_def)
    qed
  qed
qed

lemma empty_reverse_rev:
  assumes inv: "rev_inv sz xs r"
  shows "\<exists>r'. empty_reverse sz r = Inr (rcur r = 0, r') \<and> rev_inv sz xs r' \<and> rcur r' = rcur r"
proof (cases "m_filled r = 0")
  case True
  have fr: "frame sz xs r" and n: "int (length xs * sz) < 2 ^ 63" and b: "m_bufelems r * int sz * 2 < 2 ^ 63"
    and fpl: "fpos (m_file r) \<le> length (concat xs)" and o: "m_offset r = 0"
    using inv True by (simp_all add: rev_inv_def)
  obtain c where c: "m_bufelems r = int c"
    using fr unfolding frame_def by (metis less_imp_le nonneg_int_cases)
  have amt: "int (c * sz * 2) < 2 ^ 63"
    using b c by simp
  obtain r' where r': "refill_reverse sz (int 2) r = Inr (0, r')" "frame sz xs r'" "m_filled r' = 0"
      "m_offset r' = 0" "fpos (m_file r') \<le> length (concat xs)" "m_bufelems r' = m_bufelems r"
    using refill_reverse_exhausted [OF fr c amt n fpl o] by blast
  then show ?thesis
    using True rev_inv_exhausted [of sz xs r'] n b by (simp add: empty_reverse_def rcur_def)
next
  case False
  then have "0 < rcur r"
    using inv by (simp add: rev_inv_def rcur_def frame_def)
  then show ?thesis
    using False inv by (simp add: empty_reverse_def)
qed

lemma drain_rev_rev:
  "rev_inv sz xs r \<Longrightarrow> rcur r < fuel \<Longrightarrow> drain_rev sz fuel r = Some (Inr (rev (take (rcur r) xs)))"
proof (induction fuel arbitrary: r)
  case 0
  then show ?case by simp
next
  case (Suc fuel)
  obtain r1 where e: "empty_reverse sz r = Inr (rcur r = 0, r1)" "rev_inv sz xs r1" "rcur r1 = rcur r"
    using empty_reverse_rev [OF Suc.prems(1)] by blast
  show ?case
  proof (cases "rcur r = 0")
    case True
    then show ?thesis using e by simp
  next
    case False
    obtain r2 where r2: "read_reverse sz False r1 = Inr (xs ! (rcur r1 - 1), r2)" "rev_inv sz xs r2"
        "rcur r2 = rcur r1 - 1"
      using read_reverse_rev [OF e(2)] False e(3) by auto
    have "rcur r2 < fuel"
      using Suc.prems(2) r2(3) e(3) False by simp
    then have IH: "drain_rev sz fuel r2 = Some (Inr (rev (take (rcur r2) xs)))"
      by (rule Suc.IH [OF r2(2)])
    have le: "rcur r \<le> length xs"
      by (rule rev_inv_rcur_le [OF Suc.prems(1)])
    have "take (rcur r) xs = take (rcur r - 1) xs @ [xs ! (rcur r - 1)]"
      using False le by (simp add: take_last_split)
    then show ?thesis
      using False e r2 IH by simp
  qed
qed

lemma read_rev_n_rev:
  "rev_inv sz xs r \<Longrightarrow> k \<le> rcur r \<Longrightarrow>
   \<exists>r'. read_rev_n sz k r = Inr (rev (drop (rcur r - k) (take (rcur r) xs)), r') \<and> rev_inv sz xs r' \<and>
        rcur r' = rcur r - k"
proof (induction k arbitrary: r)
  case 0
  then show ?case by simp
next
  case (Suc k)
  obtain r1 where r1: "read_reverse sz False r = Inr (xs ! (rcur r - 1), r1)" "rev_inv sz xs r1"
      "rcur r1 = rcur r - 1"
    using read_reverse_rev [OF Suc.prems(1)] Suc.prems(2) by auto
  have "k \<le> rcur r1"
    using Suc.prems(2) r1(3) by simp
  then obtain r2 where r2: "read_rev_n sz k r1 = Inr (rev (drop (rcur r1 - k) (take (rcur r1) xs)), r2)"
      "rev_inv sz xs r2" "rcur r2 = rcur r1 - k"
    using Suc.IH [OF r1(2)] by blast
  have le: "rcur r \<le> length xs"
    by (rule rev_inv_rcur_le [OF Suc.prems(1)])
  have "take (rcur r) xs = take (rcur r - 1) xs @ [xs ! (rcur r - 1)]"
    using Suc.prems(2) le by (simp add: take_last_split)
  then have "drop (rcur r - Suc k) (take (rcur r) xs) =
               drop (rcur r - 1 - k) (take (rcur r - 1) xs) @ [xs ! (rcur r - 1)]"
    using Suc.prems(2) le by simp
  then show ?case
    using r1 r2 by simp
qed

text \<open>A reader constructed on a file and moved to its end with \<open>goto_end(n)\<close>.\<close>

lemma reader_at_end:
  assumes "fs fname = Some (concat xs)" "0 < sz" "uniform sz xs"
    and "int sz \<le> buf_bytes" "2 * buf_bytes < 2 ^ 63" "int (length xs * sz) < 2 ^ 63"
  shows "\<exists>r r1. stream_reader sz fs fname buf_bytes = Inr r \<and> goto_end sz (int (length xs)) r = Inr r1 \<and>
           rev_inv sz xs r1 \<and> rcur r1 = length xs"
proof -
  have bb: "buf_bytes < 2 ^ 63"
    using assms(5) by simp
  obtain r where r: "stream_reader sz fs fname buf_bytes = Inr r" "fwd_inv sz xs r"
      "m_bufelems r * int sz \<le> buf_bytes"
    using stream_reader_fwd [where fs = fs and fname = fname and xs = xs, OF assms(1-4) bb] by blast
  have fr: "frame sz xs r"
    using r(2) by (simp add: fwd_inv_def)
  have b: "m_bufelems r * int sz * 2 < 2 ^ 63"
    using r(3) assms(5) by linarith
  show ?thesis
    using r(1) goto_end_rev [OF fr assms(6) b] by blast
qed

text \<open>\<open>read_rev_n\<close> at a numeral count, for evaluating concrete runs.\<close>

lemma read_rev_n_numeral:
  "read_rev_n sz (numeral k) r =
     (case read_reverse sz False r of
        Inl e \<Rightarrow> Inl e
      | Inr (x, r1) \<Rightarrow> (case read_rev_n sz (pred_numeral k) r1 of Inl e \<Rightarrow> Inl e | Inr (ys, r2) \<Rightarrow> Inr (x # ys, r2)))"
  by (simp add: numeral_eq_Suc)

section \<open>Properties\<close>

text \<open>
  C21. The \<open>size_t\<close> arithmetic of \<open>refill_reverse\<close> is the reverse refill algorithm:
  when \<open>m_bufelems\<close>, the byte count \<open>m_bufelems * sizeof(T) * time\<close>, the file
  position and \<open>m_offset\<close> fit a \<open>long\<close>, the unsigned comparison with \<open>ftell\<close>, the
  negated count passed to \<open>fseek\<close> and the \<open>size_t\<close> counts given to \<open>fread\<close> make
  \<open>refill_reverse(time)\<close> compute exactly what the algorithm computes in unbounded
  natural numbers, on every branch.
\<close>

theorem refill_reverse_eq_ref:
  assumes "0 \<le> m_bufelems r" "m_bufelems r < 2 ^ 63" "m_bufelems r * int sz * int u < 2 ^ 63"
    and "int (fpos (m_file r)) < 2 ^ 63" "0 \<le> m_offset r" "m_offset r < 2 ^ 63"
  shows "refill_reverse sz (int u) r = refill_reverse_ref sz u r"
proof -
  obtain c where c: "m_bufelems r = int c"
    using assms(1) by (metis nonneg_int_cases)
  have c63: "int c < 2 ^ 63" and amt: "int (c * sz * u) < 2 ^ 63"
    using assms(2,3) c by simp_all
  show ?thesis
    by (simp only: refill_reverse_unfold [OF c c63 amt assms(4-6)] refill_reverse_ref_def c nat_int Let_def)
qed

end
