(* ===== verification/Reader_Machine.thy ===== *)
theory Reader_Machine
  imports Reader_Forward
begin

text \<open>
  The forward interface of \<open>stream_reader\<close> as a machine. A caller issues the public
  forward operations (\<open>read\<close>, \<open>operator++\<close>, \<open>peek\<close>, \<open>empty\<close>, \<open>goto_set\<close>) in any
  order; \<open>fwd_step\<close> runs one of them on the reader. The specification \<open>cursor_spec\<close>
  is what a forward stream promises: a cursor over the records of the file, with
  \<open>read\<close>, \<open>operator++\<close> and \<open>peek\<close> allowed only before the end (the caller
  checks \<open>empty()\<close> first; past the end the code returns stale buffer contents). The
  reachable readers are those a constructor and any sequence of allowed operations
  produce; they keep the window invariant and always reach the end of the file. The loop
  \<open>while (!empty()) read()\<close> is also given without fuel, as a partial function whose
  termination is proved.
\<close>

section \<open>Operations and their specification\<close>

datatype fwd_op = Op_read | Op_incr | Op_peek | Op_empty | Op_goto_set

datatype answer = Rec elem | Flag bool | No_value

fun fwd_step :: "nat \<Rightarrow> fwd_op \<Rightarrow> reader \<Rightarrow> stream_error + answer \<times> reader" where
  "fwd_step sz Op_read r = (case read sz r of Inl e \<Rightarrow> Inl e | Inr (x, r1) \<Rightarrow> Inr (Rec x, r1))"
| "fwd_step sz Op_incr r = (case incr sz r of Inl e \<Rightarrow> Inl e | Inr r1 \<Rightarrow> Inr (No_value, r1))"
| "fwd_step sz Op_peek r = (case peek r of Inl e \<Rightarrow> Inl e | Inr x \<Rightarrow> Inr (Rec x, r))"
| "fwd_step sz Op_empty r = (case empty sz r of Inl e \<Rightarrow> Inl e | Inr (b, r1) \<Rightarrow> Inr (Flag b, r1))"
| "fwd_step sz Op_goto_set r = (case goto_set sz r of Inl e \<Rightarrow> Inl e | Inr r1 \<Rightarrow> Inr (No_value, r1))"

abbreviation fwd_run :: "nat \<Rightarrow> fwd_op list \<Rightarrow> reader \<Rightarrow> stream_error + answer list \<times> reader" where
  "fwd_run sz \<equiv> run_steps (fwd_step sz)"

text \<open>The abstract stream: a cursor \<open>c\<close> into the records \<open>xs\<close>; \<open>None\<close> is a call outside the contract.\<close>

fun cursor_spec :: "elem list \<Rightarrow> fwd_op \<Rightarrow> nat \<Rightarrow> (answer \<times> nat) option" where
  "cursor_spec xs Op_read c = (if c < length xs then Some (Rec (xs ! c), Suc c) else None)"
| "cursor_spec xs Op_incr c = (if c < length xs then Some (No_value, Suc c) else None)"
| "cursor_spec xs Op_peek c = (if c < length xs then Some (Rec (xs ! c), c) else None)"
| "cursor_spec xs Op_empty c = Some (Flag (c = length xs), c)"
| "cursor_spec xs Op_goto_set c = Some (No_value, 0)"

abbreviation spec_run :: "elem list \<Rightarrow> fwd_op list \<Rightarrow> nat \<Rightarrow> (answer list \<times> nat) option" where
  "spec_run xs \<equiv> spec_steps (cursor_spec xs)"

text \<open>
  The readers a caller can reach: built by the constructor on a file of records
  \<open>xs\<close>, then moved by operations the specification allows.
\<close>

inductive fwd_reach :: "nat \<Rightarrow> elem list \<Rightarrow> reader \<Rightarrow> bool" for sz xs where
  start: "fs fname = Some (concat xs) \<Longrightarrow> 0 < sz \<Longrightarrow> uniform sz xs \<Longrightarrow>
          int sz \<le> buf_bytes \<Longrightarrow> buf_bytes < 2 ^ 63 \<Longrightarrow>
          stream_reader sz fs fname buf_bytes = Inr r \<Longrightarrow> fwd_reach sz xs r"
| step: "fwd_reach sz xs r \<Longrightarrow> cursor_spec xs op (cur r) \<noteq> None \<Longrightarrow>
         fwd_step sz op r = Inr (a, r') \<Longrightarrow> fwd_reach sz xs r'"

text \<open>\<open>while (!s.empty()) out.push_back(s.read());\<close> with no bound on its iterations.\<close>

partial_function (option) drain_loop :: "nat \<Rightarrow> reader \<Rightarrow> (stream_error + elem list) option" where
  "drain_loop sz r =
     (case empty sz r of
        Inl e \<Rightarrow> Some (Inl e)
      | Inr (b, r1) \<Rightarrow>
          (if b then Some (Inr [])
           else case read sz r1 of
                  Inl e \<Rightarrow> Some (Inl e)
                | Inr (x, r2) \<Rightarrow> Option.bind (drain_loop sz r2) (\<lambda>ys. Some (map_sum id (Cons x) ys))))"

section \<open>Lemmas\<close>

text \<open>One step of the reader refines one step of the specification.\<close>

lemma fwd_step_refines:
  assumes inv: "fwd_inv sz xs r" and sp: "cursor_spec xs op (cur r) = Some (a, c')"
  shows "\<exists>r'. fwd_step sz op r = Inr (a, r') \<and> fwd_inv sz xs r' \<and> cur r' = c'"
proof (cases op)
  case Op_read
  then have "cur r < length xs" "a = Rec (xs ! cur r)" "c' = Suc (cur r)"
    using sp by (simp_all split: if_splits)
  then show ?thesis
    using read_fwd [OF inv] Op_read by fastforce
next
  case Op_incr
  then have "cur r < length xs" "a = No_value" "c' = Suc (cur r)"
    using sp by (simp_all split: if_splits)
  then show ?thesis
    using incr_fwd [OF inv] Op_incr by fastforce
next
  case Op_peek
  then have "cur r < length xs" "a = Rec (xs ! cur r)" "c' = cur r"
    using sp by (auto split: if_splits)
  then show ?thesis
    using peek_fwd [OF inv] inv Op_peek by simp
next
  case Op_empty
  then have "a = Flag (cur r = length xs)" "c' = cur r"
    using sp by auto
  then show ?thesis
    using empty_fwd [OF inv] Op_empty by fastforce
next
  case Op_goto_set
  then have "a = No_value" "c' = 0"
    using sp by auto
  moreover have "frame sz xs r"
    using inv by (simp add: fwd_inv_def)
  ultimately show ?thesis
    using goto_set_fwd [of sz xs r] Op_goto_set by fastforce
qed

lemma fwd_reach_inv_step:
  assumes inv: "fwd_inv sz xs r" and sp: "cursor_spec xs op (cur r) \<noteq> None"
    and st: "fwd_step sz op r = Inr (a, r')"
  shows "fwd_inv sz xs r'"
proof -
  obtain a' c' where "cursor_spec xs op (cur r) = Some (a', c')"
    using sp by auto
  then obtain r'' where "fwd_step sz op r = Inr (a', r'')" "fwd_inv sz xs r''"
    using fwd_step_refines [OF inv] by blast
  then show ?thesis
    using st by simp
qed

lemma fwd_reach_fwd_inv: "fwd_reach sz xs r \<Longrightarrow> fwd_inv sz xs r"
proof (induction rule: fwd_reach.induct)
  case (start fs fname buf_bytes r)
  obtain r1 where "stream_reader sz fs fname buf_bytes = Inr r1" "fwd_inv sz xs r1"
    using stream_reader_fwd [where fs = fs and fname = fname and xs = xs, OF start(1-5)] by blast
  then show ?case
    using start(6) by simp
next
  case (step r op a r')
  then show ?case
    by (blast intro: fwd_reach_inv_step)
qed

section \<open>Properties\<close>

text \<open>
  C12. Refinement: for every sequence of forward operations that the cursor
  specification allows from the reader's cursor, the reader returns the specified
  answers, stays well formed and ends at the specified cursor.
\<close>

theorem fwd_run_refines:
  "fwd_inv sz xs r \<Longrightarrow> spec_run xs ops (cur r) = Some (as, c) \<Longrightarrow>
   \<exists>r'. fwd_run sz ops r = Inr (as, r') \<and> fwd_inv sz xs r' \<and> cur r' = c"
  by (rule run_steps_refines [where I = "fwd_inv sz xs" and abst = cur, OF fwd_step_refines])

text \<open>
  C13. Invariant of the reachable readers: in every reader a constructor and allowed
  operations produce, the cursor lies in the window, the window in the buffer and in
  the file, the buffer has its allocated size, the filled slots hold the file's
  records from \<open>m_offset\<close> on, and the file position is just past the window.
\<close>

theorem reachable_window:
  assumes "fwd_reach sz xs r"
  shows "0 \<le> m_pos r \<and> m_pos r \<le> m_filled r \<and> m_filled r \<le> m_bufelems r \<and>
         int (length (m_buffer r)) = m_bufelems r \<and> 0 \<le> m_offset r \<and>
         m_offset r + m_filled r \<le> int (length xs) \<and>
         take (nat (m_filled r)) (m_buffer r) = take (nat (m_filled r)) (drop (nat (m_offset r)) xs) \<and>
         fpos (m_file r) = nat (m_offset r + m_filled r) * sz"
proof -
  have inv: "fwd_inv sz xs r"
    by (rule fwd_reach_fwd_inv [OF assms])
  have fr: "frame sz xs r" and win: "window xs r" and fp: "fpos (m_file r) = nat (m_offset r + m_filled r) * sz"
    and p: "0 \<le> m_pos r" "0 < m_filled r \<longrightarrow> m_pos r < m_filled r" "m_filled r = 0 \<longrightarrow> m_pos r = 0"
    using inv unfolding fwd_inv_def by blast+
  have "m_pos r \<le> m_filled r"
    using p fr unfolding frame_def by (cases "m_filled r = 0") auto
  moreover have "int (length (m_buffer r)) = m_bufelems r"
    using fr unfolding frame_def by simp
  ultimately show ?thesis
    using fr win fp p(1) unfolding frame_def window_def by blast
qed

text \<open>
  C14. Termination: on a well-formed reader the loop \<open>while (!empty()) read()\<close>,
  with no bound on its iterations, returns, and returns the records from the cursor to
  the end of the file.
\<close>

theorem drain_loop_terminates:
  "fwd_inv sz xs r \<Longrightarrow> drain_loop sz r = Some (Inr (drop (cur r) xs))"
proof (induction "length xs - cur r" arbitrary: r rule: less_induct)
  case less
  obtain r1 where e: "empty sz r = Inr (cur r = length xs, r1)" "fwd_inv sz xs r1" "cur r1 = cur r"
    using empty_fwd [OF less.prems] by blast
  have le: "cur r \<le> length xs"
    by (rule fwd_inv_cur_le [OF less.prems])
  show ?case
  proof (cases "cur r = length xs")
    case True
    then show ?thesis
      using e by (subst drain_loop.simps) simp
  next
    case False
    obtain r2 where r2: "read sz r1 = Inr (xs ! cur r, r2)" "fwd_inv sz xs r2" "cur r2 = Suc (cur r)"
      using read_fwd [OF e(2)] e(3) False le by auto
    have "drain_loop sz r2 = Some (Inr (drop (cur r2) xs))"
      using less.hyps [OF _ r2(2)] r2(3) False le by simp
    moreover have "drain_loop sz r = Option.bind (drain_loop sz r2) (\<lambda>ys. Some (map_sum id (Cons (xs ! cur r)) ys))"
      using e r2(1) False by (subst drain_loop.simps) simp
    ultimately show ?thesis
      using r2(3) False le by (simp add: Cons_nth_drop_Suc)
  qed
qed

text \<open>
  C24. Liveness: from every reachable reader, reading on reaches the end of the file:
  after exactly the number of records left, which the reads return in order,
  \<open>empty()\<close> answers true.
\<close>

theorem reachable_reaches_end:
  assumes "fwd_reach sz xs r"
  shows "\<exists>r1 r2. read_n sz (length xs - cur r) r = Inr (drop (cur r) xs, r1) \<and> empty sz r1 = Inr (True, r2)"
proof -
  have inv: "fwd_inv sz xs r"
    by (rule fwd_reach_fwd_inv [OF assms])
  have le: "cur r \<le> length xs"
    by (rule fwd_inv_cur_le [OF inv])
  obtain r1 where r1: "read_n sz (length xs - cur r) r = Inr (take (length xs - cur r) (drop (cur r) xs), r1)"
      "fwd_inv sz xs r1" "cur r1 = length xs"
    using read_n_fwd [OF inv, of "length xs - cur r"] le by auto
  obtain r2 where "empty sz r1 = Inr (True, r2)"
    using empty_fwd [OF r1(2)] r1(3) by auto
  then show ?thesis
    using r1(1) by simp
qed

end
