(* ===== verification/Reader_Rev_Machine.thy ===== *)
theory Reader_Rev_Machine
  imports Reader_Reverse Reader_Machine
begin

text \<open>
  The reverse interface of \<open>stream_reader\<close> as a machine: after \<open>goto_end(n)\<close> a caller
  issues \<open>read_reverse()\<close> and \<open>empty_reverse()\<close> in any order. The specification is a
  backward cursor \<open>c\<close>, the number of records not yet read: \<open>read_reverse()\<close> is allowed
  while \<open>c > 0\<close> and returns record \<open>c - 1\<close>; \<open>empty_reverse()\<close> answers \<open>c = 0\<close>.
\<close>

datatype rev_op = Op_read_reverse | Op_empty_reverse

fun rev_step :: "nat \<Rightarrow> rev_op \<Rightarrow> reader \<Rightarrow> stream_error + answer \<times> reader" where
  "rev_step sz Op_read_reverse r =
     (case read_reverse sz False r of Inl e \<Rightarrow> Inl e | Inr (x, r1) \<Rightarrow> Inr (Rec x, r1))"
| "rev_step sz Op_empty_reverse r =
     (case empty_reverse sz r of Inl e \<Rightarrow> Inl e | Inr (b, r1) \<Rightarrow> Inr (Flag b, r1))"

fun rev_spec :: "elem list \<Rightarrow> rev_op \<Rightarrow> nat \<Rightarrow> (answer \<times> nat) option" where
  "rev_spec xs Op_read_reverse c = (if 0 < c then Some (Rec (xs ! (c - 1)), c - 1) else None)"
| "rev_spec xs Op_empty_reverse c = Some (Flag (c = 0), c)"

text \<open>\<open>while (!s.empty_reverse()) out.push_back(s.read_reverse());\<close> with no bound on its iterations.\<close>

partial_function (option) drain_rev_loop :: "nat \<Rightarrow> reader \<Rightarrow> (stream_error + elem list) option" where
  "drain_rev_loop sz r =
     (case empty_reverse sz r of
        Inl e \<Rightarrow> Some (Inl e)
      | Inr (b, r1) \<Rightarrow>
          (if b then Some (Inr [])
           else case read_reverse sz False r1 of
                  Inl e \<Rightarrow> Some (Inl e)
                | Inr (x, r2) \<Rightarrow> Option.bind (drain_rev_loop sz r2) (\<lambda>ys. Some (map_sum id (Cons x) ys))))"

section \<open>Lemmas\<close>

lemma rev_step_refines:
  assumes inv: "rev_inv sz xs r" and sp: "rev_spec xs op (rcur r) = Some (a, c')"
  shows "\<exists>r'. rev_step sz op r = Inr (a, r') \<and> rev_inv sz xs r' \<and> rcur r' = c'"
proof (cases op)
  case Op_read_reverse
  then have "0 < rcur r" "a = Rec (xs ! (rcur r - 1))" "c' = rcur r - 1"
    using sp by (auto split: if_splits)
  then show ?thesis
    using read_reverse_rev [OF inv] Op_read_reverse by fastforce
next
  case Op_empty_reverse
  then have "a = Flag (rcur r = 0)" "c' = rcur r"
    using sp by auto
  then show ?thesis
    using empty_reverse_rev [OF inv] Op_empty_reverse by fastforce
qed

section \<open>Properties\<close>

text \<open>
  C26. Refinement of the reverse interface: for every sequence of
  \<open>read_reverse()\<close>/\<open>empty_reverse()\<close> calls the backward-cursor specification allows,
  the reader returns the specified answers, keeps the reverse invariant and ends at the
  specified cursor.
\<close>

theorem rev_run_refines:
  "rev_inv sz xs r \<Longrightarrow> spec_steps (rev_spec xs) ops (rcur r) = Some (as, c) \<Longrightarrow>
   \<exists>r'. run_steps (rev_step sz) ops r = Inr (as, r') \<and> rev_inv sz xs r' \<and> rcur r' = c"
  by (rule run_steps_refines [where I = "rev_inv sz xs" and abst = rcur, OF rev_step_refines])

text \<open>
  C30. Reverse symmetry from any point of a forward scan: whatever allowed forward
  operations a reader has performed, \<open>goto_end(n)\<close> with the file's record count
  discards the forward window, and the loop
  \<open>while (!empty_reverse()) read_reverse()\<close> then returns all records of the file in
  reverse order, within \<open>n + 1\<close> iterations, when the file and twice the buffer stay below
  \<open>2^63\<close> bytes.
\<close>

theorem reachable_reverse_scan:
  assumes "fwd_reach sz xs r" "int (length xs * sz) < 2 ^ 63" "m_bufelems r * int sz * 2 < 2 ^ 63"
  shows "\<exists>r1. goto_end sz (int (length xs)) r = Inr r1 \<and>
              drain_rev sz (Suc (length xs)) r1 = Some (Inr (rev xs))"
proof -
  have "frame sz xs r"
    using fwd_reach_fwd_inv [OF assms(1)] by (simp add: fwd_inv_def)
  then obtain r1 where r1: "goto_end sz (int (length xs)) r = Inr r1" "rev_inv sz xs r1" "rcur r1 = length xs"
    using goto_end_rev [OF _ assms(2,3)] by blast
  have "drain_rev sz (Suc (length xs)) r1 = Some (Inr (rev (take (rcur r1) xs)))"
    by (rule drain_rev_rev [OF r1(2)]) (simp add: r1(3))
  then show ?thesis
    using r1 by simp
qed

text \<open>
  C32. Termination of the unbounded reverse loop: on a reader satisfying the reverse
  invariant, \<open>while (!empty_reverse()) read_reverse()\<close> returns, with the records
  before the backward cursor, last first.
\<close>

theorem drain_rev_loop_terminates:
  "rev_inv sz xs r \<Longrightarrow> drain_rev_loop sz r = Some (Inr (rev (take (rcur r) xs)))"
proof (induction "rcur r" arbitrary: r rule: less_induct)
  case less
  obtain r1 where e: "empty_reverse sz r = Inr (rcur r = 0, r1)" "rev_inv sz xs r1" "rcur r1 = rcur r"
    using empty_reverse_rev [OF less.prems] by blast
  show ?case
  proof (cases "rcur r = 0")
    case True
    then show ?thesis
      using e by (subst drain_rev_loop.simps) simp
  next
    case False
    obtain r2 where r2: "read_reverse sz False r1 = Inr (xs ! (rcur r - 1), r2)" "rev_inv sz xs r2"
        "rcur r2 = rcur r - 1"
      using read_reverse_rev [OF e(2)] e(3) False by auto
    have "drain_rev_loop sz r2 = Some (Inr (rev (take (rcur r2) xs)))"
      using less.hyps [OF _ r2(2)] r2(3) False by simp
    moreover have "drain_rev_loop sz r =
        Option.bind (drain_rev_loop sz r2) (\<lambda>ys. Some (map_sum id (Cons (xs ! (rcur r - 1))) ys))"
      using e r2(1) False by (subst drain_rev_loop.simps) simp
    moreover have "rcur r \<le> length xs"
      by (rule rev_inv_rcur_le [OF less.prems])
    then have "rev (take (rcur r) xs) = xs ! (rcur r - 1) # rev (take (rcur r - 1) xs)"
      using False by (cases "rcur r") (simp_all add: take_Suc_conv_app_nth)
    ultimately show ?thesis
      using r2(3) by simp
  qed
qed

end
