(* ===== verification/Reader_Random.thy ===== *)
theory Reader_Random
  imports Reader_Forward
begin

text \<open>
  Random access to \<open>stream_reader\<close>: \<open>operator[](i)\<close> and \<open>getValue(i)\<close>. Both keep
  the window when record \<open>i\<close> is in it, load the next window sequentially when \<open>i\<close>
  is in the next one, and otherwise call \<open>refill(i)\<close>, which seeks the file to
  \<open>m_offset = i\<close> --- a byte position, while \<open>m_offset\<close> counts records. The reseek is
  therefore right only for one-byte records: for \<open>sizeof(T) > 1\<close> the window is loaded
  from record \<open>i / sizeof(T)\<close> and labelled as starting at record \<open>i\<close>.
  \<open>getValue\<close> also reseeks below the window; \<open>operator[]\<close> relies on its \<open>assert\<close>.
\<close>

section \<open>A client of random access\<close>

text \<open>\<open>for (i : is) out.push_back(s.getValue(i));\<close>\<close>

fun get_all :: "bool \<Rightarrow> nat \<Rightarrow> int list \<Rightarrow> reader \<Rightarrow> stream_error + elem list \<times> reader" where
  "get_all a sz [] r = Inr ([], r)"
| "get_all a sz (i # is) r =
     (case getValue a sz i r of
        Inl e \<Rightarrow> Inl e
      | Inr (x, r1) \<Rightarrow> (case get_all a sz is r1 of Inl e \<Rightarrow> Inl e | Inr (ys, r2) \<Rightarrow> Inr (x # ys, r2)))"

section \<open>Lookups in the window\<close>

lemma window_lookup:
  assumes fr: "frame sz xs r" and win: "window xs r"
    and i: "m_offset r \<le> i" "i < m_offset r + m_filled r"
  shows "buf_get (m_buffer r) (i - m_offset r) = Inr (xs ! nat i)"
proof -
  obtain ob f q where n: "m_offset r = int ob" "m_filled r = int f" "i = int (ob + q)"
    using fr i unfolding frame_def by (metis add_nonneg_nonneg le_add_diff_inverse nonneg_int_cases
      of_nat_add zle_iff_zadd)
  have w: "ob + f \<le> length xs" "take f (m_buffer r) = take f (drop ob xs)" "q < f"
    "f \<le> length (m_buffer r)"
    using win fr n i by (simp_all add: window_def frame_def le_nat_iff)
  have e: "take f (drop ob xs) ! q = xs ! (ob + q)"
    using w by simp
  have "m_buffer r ! q = xs ! (ob + q)"
    using e w(2,3) nth_take by metis
  then show ?thesis
    using n w by (simp add: nat_int_add)
qed

text \<open>\<open>refill(i)\<close> from a byte position \<open>j * sizeof(T)\<close> loads the records from \<open>j\<close> on.\<close>

lemma refill_at:
  assumes fr: "frame sz xs r" and ij: "i = int (j * sz)" and jn: "j \<le> length xs"
  defines "k \<equiv> min (nat (m_bufelems r)) (length xs - j)"
  shows "refill sz i r =
           Inr (int k, r\<lparr>m_offset := i, m_filled := int k,
                         m_buffer := take k (drop j xs) @ drop k (m_buffer r),
                         m_file := (m_file r)\<lparr>fpos := (j + k) * sz\<rparr>, m_pos := 0\<rparr>)"
proof -
  have rd: "fread sz (nat (m_bufelems r)) (m_buffer r) ((m_file r)\<lparr>fpos := j * sz\<rparr>) =
              Inr (k, take k (drop j xs) @ drop k (m_buffer r), (m_file r)\<lparr>fpos := (j + k) * sz\<rparr>)"
    using fread_uniform [of sz xs "(m_file r)\<lparr>fpos := j * sz\<rparr>" j "nat (m_bufelems r)" "m_buffer r"] fr
    unfolding k_def frame_def by simp
  have "0 \<le> i"
    using ij by simp
  then have "i \<noteq> -1"
    by linarith
  then show ?thesis
    using fr rd ij by (simp add: refill_def del: of_nat_mult)
qed

text \<open>For one-byte records the reseek is exact: the window starts at record \<open>i\<close>.\<close>

lemma reseek_bytes:
  assumes fr: "frame 1 xs r" and i: "0 \<le> i" "i < int (length xs)"
  shows "\<exists>k r'. refill 1 i r = Inr (k, r') \<and> fwd_inv 1 xs r' \<and> m_offset r' = i \<and>
                i < m_offset r' + m_filled r'"
proof -
  obtain cap where cap: "m_bufelems r = int cap"
    using fr unfolding frame_def by (metis less_imp_le nonneg_int_cases)
  obtain j where j: "i = int j"
    using i by (metis nonneg_int_cases)
  have jn: "j \<le> length xs" "j < length xs"
    using i j by simp_all
  have "0 < cap"
    using fr cap by (simp add: frame_def)
  then show ?thesis
    using refill_at [OF fr, of i j] loaded_fwd_inv [OF fr cap jn(1)] j jn cap by simp
qed

text \<open>
  The part of \<open>operator[]\<close> and \<open>getValue\<close> that brings record \<open>i\<close> into the window
  is right whenever it does not reseek, or the records are single bytes.
\<close>

lemma index_refill_fwd:
  assumes inv: "fwd_inv sz xs r" and i: "m_offset r \<le> i" "i < int (length xs)"
    and ok: "sz = 1 \<or> i < m_offset r + m_filled r + m_bufelems r"
  shows "\<exists>r'. index_refill sz i r = Inr r' \<and> fwd_inv sz xs r' \<and> m_offset r' \<le> i \<and>
              i < m_offset r' + m_filled r'"
proof -
  have fr: "frame sz xs r" and fp: "fpos (m_file r) = nat (m_offset r + m_filled r) * sz"
    and le: "m_offset r + m_filled r \<le> int (length xs)"
    using inv by (simp_all add: fwd_inv_def window_def)
  obtain cap where cap: "m_bufelems r = int cap"
    using fr unfolding frame_def by (metis less_imp_le nonneg_int_cases)
  show ?thesis
  proof (cases "m_offset r + m_filled r \<le> i")
    case False
    then show ?thesis
      using inv i by (simp add: index_refill_def)
  next
    case beyond: True
    show ?thesis
    proof (cases "i < m_offset r + m_filled r + m_bufelems r")
      case True
      obtain k r' where rf: "refill sz (-1) r = Inr (k, r')"
        using refill_next [OF fr fp le] by simp
      obtain j where j: "m_offset r + m_filled r = int j"
        using fr unfolding frame_def by (metis add_nonneg_nonneg nonneg_int_cases)
      have o': "m_offset r' = int j" "m_filled r' = int (min cap (length xs - j))"
        using refill_next [OF fr fp le] rf cap j by auto
      have "i < int j + int cap" "int j \<le> i"
        using beyond True j cap by simp_all
      then have "m_offset r' \<le> i" "i < m_offset r' + m_filled r'"
        using o' i by auto
      then show ?thesis
        using rf beyond True refill_next_fwd_inv [OF fr fp le rf] by (simp add: index_refill_def)
    next
      case False
      then have sz1: "sz = 1"
        using ok by simp
      have "0 \<le> i"
        using fr i by (simp add: frame_def)
      then obtain k r' where "refill 1 i r = Inr (k, r')" "fwd_inv 1 xs r'" "m_offset r' = i"
          "i < m_offset r' + m_filled r'"
        using reseek_bytes [OF fr [unfolded sz1]] i by blast
      then show ?thesis
        using beyond False sz1 by (simp add: index_refill_def)
    qed
  qed
qed

text \<open>\<open>getValue\<close> without assertions, one-byte records: record \<open>i\<close>, wherever it is.\<close>

lemma getValue_bytes:
  assumes inv: "fwd_inv 1 xs r" and i: "0 \<le> i" "i < int (length xs)"
  shows "\<exists>r'. getValue False 1 i r = Inr (xs ! nat i, r') \<and> fwd_inv 1 xs r'"
proof (cases "m_offset r \<le> i")
  case True
  obtain r1 where r1: "index_refill 1 i r = Inr r1" "fwd_inv 1 xs r1" "m_offset r1 \<le> i"
      "i < m_offset r1 + m_filled r1"
    using index_refill_fwd [OF inv True i(2)] by blast
  have "buf_get (m_buffer r1) (i - m_offset r1) = Inr (xs ! nat i)"
    using r1 by (intro window_lookup [where sz = 1]) (simp_all add: fwd_inv_def)
  then show ?thesis
    using r1 by (simp add: getValue_def)
next
  case False
  have fr: "frame 1 xs r" and in_win: "\<not> m_offset r + m_filled r \<le> i"
    using inv False by (auto simp: fwd_inv_def frame_def)
  obtain k r2 where r2: "refill 1 i r = Inr (k, r2)" "fwd_inv 1 xs r2" "m_offset r2 = i"
      "i < m_offset r2 + m_filled r2"
    using reseek_bytes [OF fr i] by blast
  have "buf_get (m_buffer r2) (i - m_offset r2) = Inr (xs ! nat i)"
    using r2 by (intro window_lookup [where sz = 1]) (simp_all add: fwd_inv_def)
  then show ?thesis
    using r2 False in_win by (simp add: getValue_def index_refill_def)
qed

text \<open>Bringing record \<open>i\<close> in never moves the window start past \<open>i\<close>.\<close>

lemma index_refill_offset_le:
  assumes "index_refill sz i r = Inr r1" "m_offset r \<le> i" "0 \<le> m_bufelems r"
  shows "m_offset r1 \<le> i"
  using assms by (auto simp: index_refill_def refill_def Let_def split: if_splits sum.splits prod.splits)

section \<open>Properties\<close>

text \<open>
  C7. Random access consistency, for one-byte records and \<open>getValue\<close> built without
  assertions: for any sequence of indices into the file --- ascending, descending, inside,
  above or below the current window --- \<open>getValue\<close> returns the records a forward scan
  returns at those indices, and the reader stays well formed.
\<close>

theorem get_all_consistent:
  "fwd_inv 1 xs r \<Longrightarrow> (\<forall>i \<in> set is. 0 \<le> i \<and> i < int (length xs)) \<Longrightarrow>
   \<exists>r'. get_all False 1 is r = Inr (map (\<lambda>i. xs ! nat i) is, r') \<and> fwd_inv 1 xs r'"
proof (induction "is" arbitrary: r)
  case Nil
  then show ?case by simp
next
  case (Cons i "is")
  obtain r1 where r1: "getValue False 1 i r = Inr (xs ! nat i, r1)" "fwd_inv 1 xs r1"
    using getValue_bytes [OF Cons.prems(1)] Cons.prems(2) by auto
  obtain r2 where "get_all False 1 is r1 = Inr (map (\<lambda>i. xs ! nat i) is, r2)" "fwd_inv 1 xs r2"
    using Cons.IH [OF r1(2)] Cons.prems(2) by auto
  then show ?case
    using r1 by simp
qed

text \<open>
  C8. \<open>operator[](i)\<close> on records of any size returns record \<open>i\<close> of the file whenever
  \<open>i\<close> is in the current window or in the next one (the sequential refill), with or
  without assertions, and keeps the reader well formed.
\<close>

theorem index_consistent:
  assumes inv: "fwd_inv sz xs r" and i: "m_offset r \<le> i" "i < int (length xs)"
    and near: "i < m_offset r + m_filled r + m_bufelems r"
  shows "\<exists>r'. index a sz i r = Inr (xs ! nat i, r') \<and> fwd_inv sz xs r'"
proof -
  obtain r1 where r1: "index_refill sz i r = Inr r1" "fwd_inv sz xs r1" "m_offset r1 \<le> i"
      "i < m_offset r1 + m_filled r1"
    using index_refill_fwd [OF inv i] near by blast
  have "buf_get (m_buffer r1) (i - m_offset r1) = Inr (xs ! nat i)"
    using r1 by (intro window_lookup [where sz = sz]) (simp_all add: fwd_inv_def)
  then show ?thesis
    using r1 i by (simp add: index_def)
qed

text \<open>
  C9. The reseek of \<open>operator[]\<close> and \<open>getValue\<close> reads the wrong record: for an index
  \<open>i = j * sizeof(T)\<close> beyond the next window, both return record \<open>j\<close> of the file, not
  record \<open>i\<close>, because \<open>refill(i)\<close> seeks to byte \<open>i\<close>.
\<close>

theorem reseek_reads_byte_offset:
  assumes inv: "fwd_inv sz xs r" and far: "m_offset r + m_filled r + m_bufelems r \<le> i"
    and ij: "i = int (j * sz)" and j: "j < length xs"
  shows "\<exists>r1 r2. index a sz i r = Inr (xs ! j, r1) \<and> getValue a sz i r = Inr (xs ! j, r2)"
proof -
  have fr: "frame sz xs r"
    using inv by (simp add: fwd_inv_def)
  obtain cap where cap: "m_bufelems r = int cap" "0 < cap"
    using fr unfolding frame_def by (metis less_imp_le nonneg_int_cases of_nat_0_less_iff)
  have lo: "m_offset r \<le> i" "m_offset r + m_filled r \<le> i" "\<not> i < m_offset r + m_filled r + m_bufelems r"
    using far fr by (simp_all add: frame_def)
  define k where "k = min cap (length xs - j)"
  have k: "0 < k"
    using cap j by (simp add: k_def)
  have rf: "refill sz i r = Inr (int k, r\<lparr>m_offset := i, m_filled := int k,
                         m_buffer := take k (drop j xs) @ drop k (m_buffer r),
                         m_file := (m_file r)\<lparr>fpos := (j + k) * sz\<rparr>, m_pos := 0\<rparr>)"
    using refill_at [OF fr ij] j cap by (simp add: k_def)
  have "(take k (drop j xs) @ drop k (m_buffer r)) ! 0 = xs ! j"
    using k j by (simp add: nth_append)
  moreover have "buf_get (take k (drop j xs) @ drop k (m_buffer r)) 0 =
                 Inr ((take k (drop j xs) @ drop k (m_buffer r)) ! 0)"
    using k j by (simp add: buf_get_def)
  ultimately show ?thesis
    using rf lo k by (simp add: index_def getValue_def index_refill_def)
qed

text \<open>
  C10. An index below the window: \<open>operator[]\<close> and \<open>getValue\<close> fail their assertion
  when assertions are compiled in; without them \<open>operator[]\<close> reads before the start of
  the buffer (undefined behaviour), while \<open>getValue\<close> reseeks.
\<close>

theorem index_below_window:
  assumes "i < m_offset r" "0 \<le> m_filled r"
  shows "index True sz i r = Inl Assert_failed \<and> getValue True sz i r = Inl Assert_failed \<and>
         index False sz i r = Inl Out_of_bounds"
  using assms by (simp add: index_def getValue_def index_refill_def buf_get_def)

text \<open>
  C25. \<open>getValue\<close> and \<open>operator[]\<close> are the same function on every index at or
  above the window start, on any reader, on every branch (in the window, next window,
  reseek, errors): the extra reseek of \<open>getValue\<close> fires only below the window.
\<close>

theorem getValue_eq_index:
  assumes "m_offset r \<le> i" "0 \<le> m_bufelems r"
  shows "getValue a sz i r = index a sz i r"
proof (cases "index_refill sz i r")
  case (Inl e)
  then show ?thesis
    using assms(1) by (simp add: getValue_def index_def)
next
  case (Inr r1)
  then have "\<not> i < m_offset r1"
    using index_refill_offset_le [OF _ assms] by (simp add: not_less)
  then show ?thesis
    using Inr assms(1) by (simp add: getValue_def index_def)
qed

text \<open>
  C31. The shortcut of \<open>operator[]\<close>/\<open>getValue\<close> (lines 44--46: \<open>elem in the
  next buffer, no need to fseek\<close>) against the reference it replaces: for one-byte records,
  on a well-formed reader, the sequential \<open>refill()\<close> has exactly the effect of the
  seeking \<open>refill(m_offset + m_filled)\<close>, because the file position already is the end
  of the window. For wider records the two differ (C9).
\<close>

theorem next_window_refill_eq_seek:
  assumes "fwd_inv 1 xs r"
  shows "refill 1 (-1) r = refill 1 (m_offset r + m_filled r) r"
proof -
  have p: "fpos (m_file r) = nat (m_offset r + m_filled r)" and o: "0 \<le> m_offset r + m_filled r"
    using assms by (simp_all add: fwd_defs)
  then have "r\<lparr>m_offset := m_offset r + m_filled r,
               m_file := snd (fseek (m_file r) (m_offset r + m_filled r) SEEK_SET)\<rparr> =
             r\<lparr>m_offset := m_offset r + m_filled r\<rparr>"
    by simp
  moreover have "m_offset r + m_filled r \<noteq> -1"
    using o by simp
  ultimately show ?thesis
    by (simp add: refill_def Let_def)
qed

text \<open>
  C35. Writes through the reference of \<open>operator[]\<close> stay in the buffer: on a reader whose
  window holds record \<open>i\<close>, \<open>s[i] = v\<close> succeeds, later \<open>s[i]\<close> returns \<open>v\<close> while
  the window stays, and the file handle is untouched, so the file never receives the
  value (a refill of that window reloads the file's record).
\<close>

theorem index_write_buffer_only:
  assumes fr: "frame sz xs r" and i: "m_offset r \<le> i" "i < m_offset r + m_filled r"
  shows "\<exists>r'. index_write asserts sz i v r = Inr r' \<and> m_file r' = m_file r \<and>
              m_offset r' = m_offset r \<and> m_filled r' = m_filled r \<and> index asserts sz i r' = Inr (v, r')"
proof -
  have ir: "index_refill sz i r = Inr r"
    using i by (simp add: index_refill_def)
  have k: "0 \<le> i - m_offset r" "i - m_offset r < int (length (m_buffer r))"
    using fr i by (simp_all add: frame_def)
  define r' where "r' = r\<lparr>m_buffer := (m_buffer r)[nat (i - m_offset r) := v]\<rparr>"
  have w: "index_write asserts sz i v r = Inr r'"
    using ir k i(1) by (simp add: index_write_def r'_def)
  have "index_refill sz i r' = Inr r'"
    using i by (simp add: index_refill_def r'_def)
  then have "index asserts sz i r' = Inr (v, r')"
    using k i(1) by (simp add: index_def r'_def)
  then show ?thesis
    using w by (simp add: r'_def)
qed

end
