(* ===== verification/Reader_Realign.thy ===== *)
theory Reader_Realign
  imports Reader_Reverse
begin

text \<open>
  What the reverse refill does from states other than the one the reverse scan of
  \<open>Reader_Reverse\<close> starts from: \<open>goto_end(m)\<close> with a count \<open>m\<close> that need not be
  the file's, and \<open>read_reverse(true)\<close> on a reader left by forward reads. Both take
  the window's content from the file position and its label from \<open>m_offset\<close>, so the
  two disagree unless the caller's numbers are the reader's.
\<close>

section \<open>A full window loaded backward\<close>

text \<open>
  From a file position \<open>p\<close> records in, with \<open>m_offset > 0\<close> and at least
  \<open>m_bufelems * time\<close> records before \<open>p\<close>, \<open>refill_reverse(time)\<close> seeks back that far,
  loads a full window from there, and lowers \<open>m_offset\<close> by the window size, whatever
  \<open>m_offset\<close> was.
\<close>

lemma refill_reverse_full:
  assumes fr: "frame sz xs r" and c: "m_bufelems r = int c"
    and amt: "int (c * sz * u) < 2 ^ 63" and n: "int (length xs * sz) < 2 ^ 63"
    and fp: "fpos (m_file r) = p * sz" and le: "p \<le> length xs" and cu: "c * u \<le> p" "0 < u"
    and o: "0 < m_offset r" "m_offset r < 2 ^ 63"
  shows "refill_reverse sz (int u) r =
           Inr (int c, r\<lparr>m_file := (m_file r)\<lparr>fpos := (p - c * u + c) * sz\<rparr>,
                         m_buffer := take c (drop (p - c * u) xs) @ drop c (m_buffer r),
                         m_filled := int c, m_offset := m_offset r - int c, m_pos := int c - 1\<rparr>)"
proof -
  have sz: "0 < sz" "uniform sz xs" "contents (m_file r) = concat xs" "length (m_buffer r) = c"
    and c63: "int c < 2 ^ 63"
    using fr c by (simp_all add: frame_def)
  have fp63: "int (fpos (m_file r)) < 2 ^ 63"
    using frame_bounds [OF fr n le] fp by simp
  have B: "c * sz * u \<le> fpos (m_file r)"
    using cu(1) fp by (metis mult.assoc mult.commute mult_le_mono1)
  have p1: "fpos (m_file r) - c * sz * u = (p - c * u) * sz"
    using fp by (simp add: diff_mult_distrib algebra_simps)
  have "c \<le> c * u"
    using cu(2) by simp
  then have cu': "p - c * u + c \<le> length xs"
    using cu(1) le by linarith
  have "fread sz c (m_buffer r) ((m_file r)\<lparr>fpos := (p - c * u) * sz\<rparr>) =
          Inr (c, take c (drop (p - c * u) xs) @ drop c (m_buffer r),
               (m_file r)\<lparr>fpos := (p - c * u + c) * sz\<rparr>)"
  proof -
    have mn: "min c (length xs - (p - c * u)) = c"
      using cu' by simp
    show ?thesis
      using fread_uniform [of sz xs "(m_file r)\<lparr>fpos := (p - c * u) * sz\<rparr>" "p - c * u" c "m_buffer r"] sz
      unfolding mn by simp
  qed
  then show ?thesis
    using refill_reverse_unfold [OF c c63 amt fp63 _ o(2)] o(1) B p1 by (simp add: Let_def)
qed

text \<open>An emptied window at offset 0 reports the reverse scan exhausted.\<close>

lemma exhausted_empty_reverse:
  assumes fr: "frame sz xs r" and c: "m_bufelems r = int c"
    and amt: "int (c * sz * 2) < 2 ^ 63" and n: "int (length xs * sz) < 2 ^ 63"
    and fp: "fpos (m_file r) \<le> length (concat xs)" and o: "m_offset r = 0" and f: "m_filled r = 0"
  shows "\<exists>r'. empty_reverse sz r = Inr (True, r')"
proof -
  obtain r' where "refill_reverse sz (int 2) r = Inr (0, r')"
    using refill_reverse_exhausted [OF fr c amt n fp o] by blast
  then show ?thesis
    using f by (simp add: empty_reverse_def)
qed

lemma fwd_inv_bounds:
  assumes inv: "fwd_inv sz xs r" and n: "int (length xs * sz) < 2 ^ 63"
  shows "fpos (m_file r) = nat (m_offset r + m_filled r) * sz" "nat (m_offset r + m_filled r) \<le> length xs"
    "m_offset r < 2 ^ 63" "fpos (m_file r) \<le> length (concat xs)"
proof -
  have fr: "frame sz xs r" and w: "m_offset r + m_filled r \<le> int (length xs)"
    and fp: "fpos (m_file r) = nat (m_offset r + m_filled r) * sz"
    using inv by (simp_all add: fwd_inv_def window_def)
  have nn: "0 \<le> m_offset r" "0 \<le> m_filled r" "0 < sz" "uniform sz xs"
    using fr by (simp_all add: frame_def)
  show "fpos (m_file r) = nat (m_offset r + m_filled r) * sz"
    by (rule fp)
  show le: "nat (m_offset r + m_filled r) \<le> length xs"
    using w by simp
  have "length xs \<le> length xs * sz"
    using nn(3) by simp
  then show "m_offset r < 2 ^ 63"
    using w nn n by linarith
  show "fpos (m_file r) \<le> length (concat xs)"
    using fp le nn(3,4) by (simp add: length_concat_uniform)
qed

section \<open>Properties\<close>

text \<open>
  C16. \<open>goto_end(m)\<close> loads the end of the file and labels it from \<open>m\<close>: on a file of
  \<open>n\<close> records at least one buffer long, for every count \<open>m > 0\<close>, the first reverse
  window holds the last \<open>m_bufelems\<close> records of the file (so the windows of a reverse
  scan come from the end, full ones first), while \<open>m_offset\<close> becomes
  \<open>m - m_bufelems\<close>: the count is never compared with the file, and only \<open>m = n\<close>
  labels the window with its records' indices.
\<close>

theorem goto_end_loads_file_end:
  assumes fr: "frame sz xs r" and c: "m_bufelems r = int c" and cn: "c \<le> length xs"
    and n: "int (length xs * sz) < 2 ^ 63" and amt: "int (c * sz) < 2 ^ 63"
    and m: "0 < m" "m < 2 ^ 63"
  shows "\<exists>r'. goto_end sz m r = Inr r' \<and> take c (m_buffer r') = drop (length xs - c) xs \<and>
              m_filled r' = int c \<and> m_offset r' = m - int c \<and> m_pos r' = int c - 1"
proof -
  define r1 where "r1 = r\<lparr>m_file := snd (fseek (m_file r) 0 SEEK_END), m_offset := m, m_filled := 0\<rparr>"
  have sz: "0 < sz" "uniform sz xs" "contents (m_file r) = concat xs" "length (m_buffer r) = c"
    using fr c by (simp_all add: frame_def)
  have fr1: "frame sz xs r1" and c1: "m_bufelems r1 = int c"
    using fr c m by (simp_all add: r1_def frame_def)
  have fp: "fpos (m_file r1) = length xs * sz"
    using sz by (simp add: r1_def length_concat_uniform)
  have amt1: "int (c * sz * 1) < 2 ^ 63"
    using amt by simp
  note full = refill_reverse_full [OF fr1 c1 amt1 n fp order.refl _ _ _ _] cn m
  have ge: "goto_end sz m r = (case refill_reverse sz (int 1) r1 of Inl e \<Rightarrow> Inl e | Inr (_, r') \<Rightarrow> Inr r')"
    by (simp add: goto_end_def r1_def)
  have "take c (take c (drop (length xs - c) xs) @ drop c (m_buffer r1)) = drop (length xs - c) xs"
    using cn by simp
  then show ?thesis
    using ge full by (simp add: r1_def)
qed

text \<open>
  C19. \<open>read_reverse(true)\<close> after forward reads past the first window: on a reader whose
  forward window is \<open>[m_offset, m_offset + m_filled)\<close> with \<open>m_offset \<ge> m_bufelems \<ge> 2\<close>,
  the realigning refill loads the \<open>m_bufelems\<close> records that end where the forward window
  ends, and the call returns the last record of that window, not the one before the
  cursor; the new window is labelled \<open>m_offset - m_bufelems\<close> although it starts at
  \<open>m_offset + m_filled - m_bufelems\<close>, so the reverse scan that follows misses the
  records between the two.
\<close>

theorem realign_reads_window_end:
  assumes inv: "fwd_inv sz xs r" and c: "m_bufelems r = int c" "2 \<le> c" and o: "int c \<le> m_offset r"
    and n: "int (length xs * sz) < 2 ^ 63" and amt: "int (c * sz) < 2 ^ 63"
  shows "\<exists>r'. read_reverse sz True r = Inr (xs ! (nat (m_offset r + m_filled r) - 1), r') \<and>
              m_offset r' = m_offset r - int c \<and> m_pos r' = int c - 2 \<and>
              take c (m_buffer r') = take c (drop (nat (m_offset r + m_filled r) - c) xs)"
proof -
  define p where "p = nat (m_offset r + m_filled r)"
  have fr: "frame sz xs r"
    using inv by (simp add: fwd_inv_def)
  have sz: "length (m_buffer r) = c" "0 \<le> m_filled r"
    using fr c by (simp_all add: frame_def)
  have b: "fpos (m_file r) = p * sz" "p \<le> length xs" "m_offset r < 2 ^ 63"
    using fwd_inv_bounds [OF inv n] by (simp_all add: p_def)
  have cp: "c * 1 \<le> p"
    using o sz(2) by (simp add: p_def le_nat_iff)
  have amt1: "int (c * sz * 1) < 2 ^ 63"
    using amt by simp
  have o0: "0 < m_offset r"
    using o c(2) by simp
  define buf where "buf = take c (drop (p - c) xs) @ drop c (m_buffer r)"
  define r2 where "r2 = r\<lparr>m_file := (m_file r)\<lparr>fpos := (p - c * 1 + c) * sz\<rparr>, m_buffer := buf,
                           m_filled := int c, m_offset := m_offset r - int c, m_pos := int c - 1\<rparr>"
  have rr: "refill_reverse sz (int 1) r = Inr (int c, r2)"
    unfolding r2_def buf_def using refill_reverse_full [OF fr c(1) amt1 n b(1,2) cp _ o0 b(3)] by simp
  have lb: "length buf = c"
    using cp b(2) sz(1) by (simp add: buf_def)
  have "buf ! (c - 1) = xs ! (p - 1)"
    using cp b(2) c(2) by (simp add: buf_def nth_append)
  moreover have "nat (int c - 1) = c - 1"
    using c(2) by simp
  ultimately have g: "buf_get (m_buffer r2) (m_pos r2) = Inr (xs ! (p - 1))"
    using lb c(2) by (simp add: r2_def)
  have tb: "take c buf = take c (drop (p - c) xs)"
    using cp b(2) by (simp add: buf_def)
  have "m_pos r2 - 1 \<noteq> -1"
    using c(2) by (simp add: r2_def)
  then show ?thesis
    using rr g tb c(2) by (simp add: read_reverse_def Let_def r2_def p_def)
qed

text \<open>
  C20. \<open>read_reverse(true)\<close> in the first forward window ends the reverse scan: on any
  reader whose forward window starts at record 0, the realigning refill finds
  \<open>m_offset = 0\<close> and empties the window, the call returns one value, and
  \<open>empty_reverse()\<close> is then true: no record before the cursor is ever returned.
\<close>

theorem realign_at_start_exhausts:
  assumes inv: "fwd_inv sz xs r" and o: "m_offset r = 0"
    and n: "int (length xs * sz) < 2 ^ 63" and b: "m_bufelems r * int sz * 2 < 2 ^ 63"
  shows "\<exists>x r1 r2. read_reverse sz True r = Inr (x, r1) \<and> m_filled r1 = 0 \<and> m_offset r1 = 0 \<and>
                  empty_reverse sz r1 = Inr (True, r2)"
proof -
  have fr: "frame sz xs r"
    using inv by (simp add: fwd_inv_def)
  obtain c where c: "m_bufelems r = int c"
    using fr unfolding frame_def by (metis less_imp_le nonneg_int_cases)
  have amt1: "int (c * sz * 1) < 2 ^ 63" and amt2: "int (c * sz * 2) < 2 ^ 63"
    using b c by simp_all
  have fp: "fpos (m_file r) \<le> length (concat xs)"
    using fwd_inv_bounds [OF inv n] by simp
  obtain r1 where r1: "refill_reverse sz (int 1) r = Inr (0, r1)" "frame sz xs r1" "m_filled r1 = 0"
      "m_offset r1 = 0" "fpos (m_file r1) \<le> length (concat xs)" "m_bufelems r1 = m_bufelems r"
      "m_pos r1 = m_pos r"
    using refill_reverse_exhausted [OF fr c amt1 n fp o] by blast
  have pos: "0 \<le> m_pos r" "m_pos r < int c"
    using inv c by (auto simp: fwd_inv_def frame_def)
  have len: "length (m_buffer r1) = c"
    using r1(2,6) c by (simp add: frame_def)
  define r2 where "r2 = r1\<lparr>m_pos := m_pos r1 - 1\<rparr>"
  have fr2: "frame sz xs r2" and c2: "m_bufelems r2 = int c"
    using r1(2,6) c by (simp_all add: r2_def frame_def)
  have e2: "m_filled r2 = 0" "m_offset r2 = 0" "fpos (m_file r2) \<le> length (concat xs)"
    using r1 by (simp_all add: r2_def)
  have "\<exists>r3. (if m_pos r2 = -1 then
               (case refill_reverse sz 2 r2 of Inl e \<Rightarrow> Inl e | Inr (_, r3) \<Rightarrow> Inr (x, r3))
             else Inr (x, r2)) = Inr (x, r3) \<and> m_filled r3 = 0 \<and> m_offset r3 = 0 \<and>
             frame sz xs r3 \<and> m_bufelems r3 = int c \<and> fpos (m_file r3) \<le> length (concat xs)" for x
  proof (cases "m_pos r2 = -1")
    case True
    obtain r3 where "refill_reverse sz (int 2) r2 = Inr (0, r3)" "frame sz xs r3" "m_filled r3 = 0"
        "m_offset r3 = 0" "fpos (m_file r3) \<le> length (concat xs)" "m_bufelems r3 = m_bufelems r2"
      using refill_reverse_exhausted [OF fr2 c2 amt2 n e2(3,2)] by blast
    then show ?thesis
      using True c2 by simp
  next
    case False
    then show ?thesis
      using fr2 c2 e2 by simp
  qed
  moreover have "read_reverse sz True r =
      (if m_pos r2 = -1 then
         (case refill_reverse sz 2 r2 of Inl e \<Rightarrow> Inl e | Inr (_, r3) \<Rightarrow> Inr (m_buffer r1 ! nat (m_pos r), r3))
       else Inr (m_buffer r1 ! nat (m_pos r), r2))"
    using r1(1,7) pos len by (simp add: read_reverse_def Let_def r2_def)
  ultimately obtain r3 where r3: "read_reverse sz True r = Inr (m_buffer r1 ! nat (m_pos r), r3)" "m_filled r3 = 0"
      "m_offset r3 = 0" "frame sz xs r3" "m_bufelems r3 = int c" "fpos (m_file r3) \<le> length (concat xs)"
    by metis
  obtain r4 where "empty_reverse sz r3 = Inr (True, r4)"
    using exhausted_empty_reverse [OF r3(4,5) amt2 n r3(6,3,2)] by blast
  then show ?thesis
    using r3 by blast
qed

end
