(* ===== verification/Writer.thy ===== *)
theory Writer
  imports CStdio
begin

text \<open>
  \<open>stream_writer<T>\<close> of \<open>src/em-maw/stream.h\<close> (lines 174--204): the struct as a record,
  the constructor, \<open>write\<close>, the private \<open>flush\<close> and the destructor, which flushes a
  non-empty buffer and closes the file. The abstraction \<open>w_abs\<close> of a writer is the
  content its file will have once it is destroyed: the bytes already in the file followed
  by the pending records of the buffer. The invariant \<open>wr_ok\<close> says the buffer is
  allocated, never full between calls, and the handle is at the end of its file. A
  buffer smaller than one record breaks it at construction (C18); a negative one wraps
  through \<open>size_t\<close> (C27).
\<close>

record writer =
  w_file :: cfile
  w_bufelems :: int
  w_filled :: int
  w_buffer :: "elem list"

text \<open>
  The constructor: \<open>m_bufelems = bufsize / sizeof(T)\<close> (unsigned division, stored back
  into an \<open>INT\<close>), open the
  file for writing (creating or truncating it), allocate the buffer (zero bytes here,
  unspecified in C).
\<close>

definition stream_writer :: "nat \<Rightarrow> fsys \<Rightarrow> string \<Rightarrow> int \<Rightarrow> stream_error + fsys \<times> writer" where
  "stream_writer sz fs fname bufsize =
     (let bufelems = long_of (size_t_of bufsize div sz)
      in case file_open fs fname ''w'' of
           Inl e \<Rightarrow> Inl e
         | Inr (fs1, f) \<Rightarrow>
             Inr (fs1, \<lparr>w_file = f, w_bufelems = bufelems, w_filled = 0,
                        w_buffer = replicate (alloc_elems bufelems sz) (replicate sz 0)\<rparr>))"

definition flush :: "writer \<Rightarrow> stream_error + writer" where
  "flush w =
     (case add_objects_to_file (w_file w) (w_filled w) (w_buffer w) of
        Inl e \<Rightarrow> Inl e
      | Inr f \<Rightarrow> Inr (w\<lparr>w_file := f, w_filled := 0\<rparr>))"

text \<open>\<open>m_buffer[m_filled++] = x; if (m_filled == m_bufelems) flush();\<close>\<close>

definition write_elem :: "elem \<Rightarrow> writer \<Rightarrow> stream_error + writer" where
  "write_elem x w =
     (case buf_set (w_buffer w) (w_filled w) x of
        Inl e \<Rightarrow> Inl e
      | Inr buf \<Rightarrow>
          (let w1 = w\<lparr>w_buffer := buf, w_filled := w_filled w + 1\<rparr>
           in if w_filled w1 = w_bufelems w1 then flush w1 else Inr w1))"

text \<open>The destructor, with the file system the closed file is written back to.\<close>

definition writer_close :: "fsys \<Rightarrow> string \<Rightarrow> writer \<Rightarrow> stream_error + fsys" where
  "writer_close fs fname w =
     (case (if w_filled w \<noteq> 0 then flush w else Inr w) of
        Inl e \<Rightarrow> Inl e
      | Inr w1 \<Rightarrow> Inr (fclose fs fname (w_file w1)))"

text \<open>A caller writing a list of records in order.\<close>

fun write_all :: "elem list \<Rightarrow> writer \<Rightarrow> stream_error + writer" where
  "write_all [] w = Inr w"
| "write_all (x # xs) w = (case write_elem x w of Inl e \<Rightarrow> Inl e | Inr w1 \<Rightarrow> write_all xs w1)"

definition w_abs :: "writer \<Rightarrow> byte list" where
  "w_abs w = contents (w_file w) @ concat (take (nat (w_filled w)) (w_buffer w))"

definition wr_ok :: "writer \<Rightarrow> bool" where
  "wr_ok w \<longleftrightarrow>
     0 < w_bufelems w \<and> length (w_buffer w) = nat (w_bufelems w) \<and>
     0 \<le> w_filled w \<and> w_filled w < w_bufelems w \<and>
     fpos (w_file w) = length (contents (w_file w))"

text \<open>
  The writers a caller can reach: constructed with a buffer of at least one record, then
  given records of \<open>sizeof(T)\<close> bytes.
\<close>

inductive wr_reach :: "nat \<Rightarrow> writer \<Rightarrow> bool" for sz where
  start: "0 < sz \<Longrightarrow> int sz \<le> bufsize \<Longrightarrow> bufsize < 2 ^ 63 \<Longrightarrow>
          stream_writer sz fs fname bufsize = Inr (fs1, w) \<Longrightarrow> wr_reach sz w"
| step: "wr_reach sz w \<Longrightarrow> length x = sz \<Longrightarrow> write_elem x w = Inr w' \<Longrightarrow> wr_reach sz w'"

section \<open>Lemmas\<close>

lemma add_objects_at_end:
  assumes "fpos f = length (contents f)" "0 \<le> n" "n \<le> int (length tab)"
  shows "add_objects_to_file f n tab =
           Inr \<lparr>contents = contents f @ concat (take (nat n) tab),
                fpos = length (contents f @ concat (take (nat n) tab))\<rparr>"
  using assms by (simp add: add_objects_to_file_def Let_def)

text \<open>\<open>flush\<close> moves the pending records into the file and keeps the abstraction.\<close>

lemma flush_abs:
  assumes "fpos (w_file w) = length (contents (w_file w))" "0 \<le> w_filled w"
    and "w_filled w \<le> int (length (w_buffer w))"
  shows "\<exists>w'. flush w = Inr w' \<and> w_abs w' = w_abs w \<and> w_filled w' = 0 \<and>
              fpos (w_file w') = length (contents (w_file w')) \<and>
              w_buffer w' = w_buffer w \<and> w_bufelems w' = w_bufelems w"
  using assms by (simp add: flush_def add_objects_at_end w_abs_def)

lemma write_wr_ok:
  assumes ok: "wr_ok w"
  shows "\<exists>w'. write_elem x w = Inr w' \<and> wr_ok w' \<and> w_abs w' = w_abs w @ x \<and>
              w_filled w' = (w_filled w + 1) mod w_bufelems w"
proof -
  obtain n where n: "w_filled w = int n"
    using ok unfolding wr_ok_def by (metis nonneg_int_cases)
  have lt: "n < length (w_buffer w)"
    using ok n by (simp add: wr_ok_def zless_nat_eq_int_zless)
  define w1 where "w1 = w\<lparr>w_buffer := (w_buffer w)[n := x], w_filled := w_filled w + 1\<rparr>"
  have wr: "write_elem x w = (if w_filled w1 = w_bufelems w1 then flush w1 else Inr w1)"
    using lt n by (simp add: write_elem_def w1_def)
  have abs1: "w_abs w1 = w_abs w @ x"
    using lt n by (simp add: w_abs_def w1_def take_Suc_update)
  show ?thesis
  proof (cases "w_filled w1 = w_bufelems w1")
    case True
    obtain w' where w': "flush w1 = Inr w'" "w_abs w' = w_abs w1" "w_filled w' = 0"
        "fpos (w_file w') = length (contents (w_file w'))" "w_buffer w' = w_buffer w1"
        "w_bufelems w' = w_bufelems w1"
      using flush_abs [of w1] ok lt n True by (auto simp: w1_def wr_ok_def)
    have "w_filled w' = (w_filled w + 1) mod w_bufelems w"
      using True w'(3) by (simp add: w1_def)
    then show ?thesis
      using ok w' wr abs1 True by (simp add: wr_ok_def w1_def)
  next
    case False
    then show ?thesis
      using ok wr abs1 by (simp add: wr_ok_def w1_def)
  qed
qed

lemma write_no_flush:
  assumes ok: "wr_ok w" and lt: "w_filled w + 1 < w_bufelems w"
  shows "write_elem x w = Inr (w\<lparr>w_buffer := (w_buffer w)[nat (w_filled w) := x], w_filled := w_filled w + 1\<rparr>)"
  using ok lt by (simp add: write_elem_def wr_ok_def)

lemma write_all_short:
  "wr_ok w \<Longrightarrow> w_filled w + int (length xs) < w_bufelems w \<Longrightarrow> write_all xs w = Inr w' \<Longrightarrow>
   w_file w' = w_file w"
proof (induction xs arbitrary: w)
  case Nil
  then show ?case by simp
next
  case (Cons x xs)
  let ?w1 = "w\<lparr>w_buffer := (w_buffer w)[nat (w_filled w) := x], w_filled := w_filled w + 1\<rparr>"
  have wr: "write_elem x w = Inr ?w1"
    using Cons.prems(1,2) by (intro write_no_flush) simp_all
  have ok1: "wr_ok ?w1"
    using Cons.prems(1,2) by (simp add: wr_ok_def)
  have "w_file w' = w_file ?w1"
    using Cons.IH [OF ok1] Cons.prems(2,3) wr by simp
  then show ?case
    by simp
qed

lemma write_all_wr_ok:
  "wr_ok w \<Longrightarrow> \<exists>w'. write_all xs w = Inr w' \<and> wr_ok w' \<and> w_abs w' = w_abs w @ concat xs"
proof (induction xs arbitrary: w)
  case Nil
  then show ?case by simp
next
  case (Cons x xs)
  obtain w1 where w1: "write_elem x w = Inr w1" "wr_ok w1" "w_abs w1 = w_abs w @ x"
    using write_wr_ok [OF Cons.prems] by blast
  then show ?case
    using Cons.IH [OF w1(2)] by auto
qed

lemma writer_close_abs:
  assumes ok: "wr_ok w"
  shows "writer_close fs fname w = Inr (fs(fname \<mapsto> w_abs w))"
proof (cases "w_filled w = 0")
  case True
  then show ?thesis
    by (simp add: writer_close_def fclose_def w_abs_def)
next
  case False
  obtain w' where "flush w = Inr w'" "w_abs w' = w_abs w" "w_filled w' = 0"
    using flush_abs [of w] ok by (auto simp: wr_ok_def)
  then show ?thesis
    using False by (simp add: writer_close_def fclose_def w_abs_def)
qed

lemma stream_writer_wr_ok:
  assumes "int sz \<le> bufsize" "bufsize < 2 ^ 63" "0 < sz"
  shows "\<exists>w. stream_writer sz fs fname bufsize = Inr (fs(fname \<mapsto> []), w) \<and> wr_ok w \<and> w_abs w = [] \<and>
             w_filled w = 0 \<and> contents (w_file w) = []"
proof -
  have ce: "long_of (size_t_of bufsize div sz) = int (nat bufsize div sz)"
    "alloc_elems (int (nat bufsize div sz)) sz = nat bufsize div sz"
    using ctor_bufelems [of bufsize sz] assms by simp_all
  have "0 < nat bufsize div sz"
    using assms by (simp add: div_greater_zero_iff le_nat_iff)
  then show ?thesis
    by (simp add: stream_writer_def file_open_def ce wr_ok_def w_abs_def Let_def)
qed

text \<open>
  C5. \<open>write\<close> on every branch: the record goes into the first free slot; when that fills
  the buffer, all pending records are appended to the file and the buffer is emptied,
  otherwise the file is untouched. Either way the writer stays well formed.
\<close>

theorem write_step:
  assumes ok: "wr_ok w"
  shows "\<exists>w'. write_elem x w = Inr w' \<and> wr_ok w' \<and>
           (if w_filled w + 1 = w_bufelems w
            then contents (w_file w') = w_abs w @ x \<and> w_filled w' = 0
            else w_file w' = w_file w \<and> w_filled w' = w_filled w + 1 \<and>
                 take (nat (w_filled w')) (w_buffer w') = take (nat (w_filled w)) (w_buffer w) @ [x])"
proof -
  obtain w' where w': "write_elem x w = Inr w'" "wr_ok w'" "w_abs w' = w_abs w @ x"
      "w_filled w' = (w_filled w + 1) mod w_bufelems w"
    using write_wr_ok [OF ok] by blast
  obtain n where n: "w_filled w = int n"
    using ok unfolding wr_ok_def by (metis nonneg_int_cases)
  have lt: "n < length (w_buffer w)"
    using ok n by (simp add: wr_ok_def zless_nat_eq_int_zless)
  show ?thesis
  proof (cases "w_filled w + 1 = w_bufelems w")
    case True
    then have "w_filled w' = 0"
      using w'(4) by simp
    then show ?thesis
      using True w' by (simp add: w_abs_def)
  next
    case False
    then have "w_filled w + 1 < w_bufelems w"
      using ok by (simp add: wr_ok_def)
    then have "write_elem x w = Inr (w\<lparr>w_buffer := (w_buffer w)[n := x], w_filled := w_filled w + 1\<rparr>)"
      using write_no_flush [OF ok] n by simp
    then show ?thesis
      using False w' lt n by (simp add: take_Suc_update)
  qed
qed

text \<open>
  C18. A buffer smaller than one record: \<open>m_bufelems = bufsize / sizeof(T)\<close> is 0, the
  constructor succeeds and creates the file, and the first \<open>write\<close> stores into the
  zero-length buffer out of bounds (a heap overflow in C); nothing is ever written.
\<close>

theorem small_buffer_write_overflows:
  assumes "0 \<le> bufsize" "bufsize < int sz" "bufsize < 2 ^ 63"
  shows "\<exists>w. stream_writer sz fs fname bufsize = Inr (fs(fname \<mapsto> []), w) \<and> w_bufelems w = 0 \<and>
             write_elem x w = Inl Out_of_bounds"
proof -
  have "size_t_of bufsize = nat bufsize"
    using assms(1,3) by (simp add: size_t_of_int)
  moreover have "nat bufsize < sz"
    using assms(1,2) by (simp add: nat_less_iff)
  ultimately have "size_t_of bufsize div sz = 0"
    by simp
  then show ?thesis
    by (simp add: stream_writer_def file_open_def write_elem_def buf_set_def Let_def)
qed

lemma write_elem_bufelems: "write_elem x w = Inr w' \<Longrightarrow> w_bufelems w' = w_bufelems w"
  by (auto simp: write_elem_def flush_def Let_def split: sum.splits if_splits)

text \<open>
  C23. Invariant of the reachable writers: the writer stays well formed, its pending
  records are whole records, and the file on disk only ever grows by whole buffers:
  until the destructor its length is a multiple of \<open>m_bufelems * sizeof(T)\<close>.
\<close>

theorem writer_flushes_whole_buffers:
  "wr_reach sz w \<Longrightarrow>
   wr_ok w \<and> uniform sz (take (nat (w_filled w)) (w_buffer w)) \<and>
   length (contents (w_file w)) mod (nat (w_bufelems w) * sz) = 0"
proof (induction rule: wr_reach.induct)
  case (start bufsize fs fname fs1 w)
  obtain w0 where "stream_writer sz fs fname bufsize = Inr (fs(fname \<mapsto> []), w0)" "wr_ok w0"
      "w_filled w0 = 0" "contents (w_file w0) = []"
    using stream_writer_wr_ok [OF start(2,3,1), of fs fname] by blast
  then show ?case
    using start(4) by simp
next
  case (step w x w')
  have ok: "wr_ok w" and u: "uniform sz (take (nat (w_filled w)) (w_buffer w))"
    and m: "length (contents (w_file w)) mod (nat (w_bufelems w) * sz) = 0"
    using step.IH by blast+
  obtain w'' where w'': "write_elem x w = Inr w''" "wr_ok w''"
      "if w_filled w + 1 = w_bufelems w
       then contents (w_file w'') = w_abs w @ x \<and> w_filled w'' = 0
       else w_file w'' = w_file w \<and> w_filled w'' = w_filled w + 1 \<and>
            take (nat (w_filled w'')) (w_buffer w'') = take (nat (w_filled w)) (w_buffer w) @ [x]"
    using write_step [OF ok, of x] by blast
  have eq: "w'' = w'" and be: "w_bufelems w' = w_bufelems w"
    using w''(1) step.hyps(3) write_elem_bufelems [OF step.hyps(3)] by simp_all
  show ?case
  proof (cases "w_filled w + 1 = w_bufelems w")
    case True
    have "length (take (nat (w_filled w)) (w_buffer w)) = nat (w_filled w)"
      using ok by (simp add: wr_ok_def)
    then have len: "length (concat (take (nat (w_filled w)) (w_buffer w))) = nat (w_filled w) * sz"
      using length_concat_uniform [OF u] by simp
    have "nat (w_bufelems w) = Suc (nat (w_filled w))"
      using ok by (simp add: wr_ok_def True [symmetric] nat_add_distrib)
    then have "length (contents (w_file w')) = length (contents (w_file w)) + nat (w_bufelems w) * sz"
      using w''(3) True eq len step.hyps(2) by (simp add: w_abs_def)
    then show ?thesis
      using w''(2,3) True eq be m by simp
  next
    case False
    have "w_file w'' = w_file w \<and> w_filled w'' = w_filled w + 1 \<and>
          take (nat (w_filled w'')) (w_buffer w'') = take (nat (w_filled w)) (w_buffer w) @ [x]"
      using w''(3) unfolding if_not_P [OF False] .
    then have f: "w_file w' = w_file w"
      and t: "take (nat (w_filled w')) (w_buffer w') = take (nat (w_filled w)) (w_buffer w) @ [x]"
      unfolding eq by blast+
    have "uniform sz (take (nat (w_filled w')) (w_buffer w'))"
      unfolding t using u step.hyps(2) by simp
    then show ?thesis
      using w''(2) eq be m f by simp
  qed
qed

text \<open>
  C27. The capacity of a new writer over the whole \<open>INT\<close> range of \<open>bufsize\<close>:
  \<open>m_bufelems = bufsize / sizeof(T)\<close> is computed in \<open>size_t\<close>, so a negative
  \<open>bufsize\<close> wraps to \<open>bufsize + 2^64\<close> before the division; the quotient stored
  back into the signed \<open>m_bufelems\<close> is the negative \<open>bufsize\<close> itself for one-byte
  records and a huge positive capacity otherwise.
\<close>

theorem writer_bufelems:
  assumes "- (2 ^ 63) \<le> bufsize" "bufsize < 2 ^ 63" "0 < sz"
    and "stream_writer sz fs fname bufsize = Inr (fs1, w)"
  shows "w_bufelems w = (if 0 \<le> bufsize \<or> sz = 1 then bufsize div int sz
                         else (bufsize + 2 ^ 64) div int sz)"
proof -
  have "w_bufelems w = long_of (size_t_of bufsize div sz)"
    using assms(4) by (auto simp: stream_writer_def file_open_def Let_def)
  then show ?thesis
    using long_of_bufelems [OF assms(1-3)] by simp
qed

end
