(* ===== verification/Pipeline.thy ===== *)
theory Pipeline
  imports Reader_Machine Writer
begin

text \<open>
  The two components together, as the specification's caller uses them (sections 2
  and 5): one reader and one writer, each on its own file, stream a transform from one
  file to the other with \<open>while (!in.empty()) out.write(f(in.read()));\<close>, and are then
  destroyed in the reverse order of their construction, the writer first. The loop has
  no bound on its iterations; the theorem that it returns is proved as such.
\<close>

partial_function (option) map_loop ::
  "nat \<Rightarrow> (elem \<Rightarrow> elem) \<Rightarrow> reader \<Rightarrow> writer \<Rightarrow> (stream_error + reader \<times> writer) option" where
  "map_loop sz f r w =
     (case empty sz r of
        Inl e \<Rightarrow> Some (Inl e)
      | Inr (b, r1) \<Rightarrow>
          (if b then Some (Inr (r1, w))
           else case read sz r1 of
                  Inl e \<Rightarrow> Some (Inl e)
                | Inr (x, r2) \<Rightarrow>
                    (case write_elem (f x) w of
                       Inl e \<Rightarrow> Some (Inl e)
                     | Inr w1 \<Rightarrow> map_loop sz f r2 w1)))"

text \<open>
  The whole caller: construct the reader on \<open>src\<close>, then the writer on \<open>dst\<close>, run the
  loop, destroy the writer, then the reader; the result is the file system at the end.
\<close>

definition transform ::
  "nat \<Rightarrow> (elem \<Rightarrow> elem) \<Rightarrow> fsys \<Rightarrow> string \<Rightarrow> string \<Rightarrow> int \<Rightarrow> int \<Rightarrow> (stream_error + fsys) option" where
  "transform sz f fs src dst rbytes wbytes =
     (case stream_reader sz fs src rbytes of
        Inl e \<Rightarrow> Some (Inl e)
      | Inr r \<Rightarrow>
          (case stream_writer sz fs dst wbytes of
             Inl e \<Rightarrow> Some (Inl e)
           | Inr (fs1, w) \<Rightarrow>
               map_option
                 (\<lambda>res. case res of
                          Inl e \<Rightarrow> Inl e
                        | Inr (r', w') \<Rightarrow>
                            (case writer_close fs1 dst w' of
                               Inl e \<Rightarrow> Inl e
                             | Inr fs2 \<Rightarrow> Inr (reader_close fs2 src r')))
                 (map_loop sz f r w)))"

section \<open>Lemmas\<close>

text \<open>
  The loop from a well-formed reader and writer returns, having appended the image of
  every record from the cursor on to the writer's content, and leaves both well formed.
\<close>

lemma map_loop_fwd:
  "fwd_inv sz xs r \<Longrightarrow> wr_ok w \<Longrightarrow>
   \<exists>r' w'. map_loop sz f r w = Some (Inr (r', w')) \<and> fwd_inv sz xs r' \<and> wr_ok w' \<and>
           w_abs w' = w_abs w @ concat (map f (drop (cur r) xs))"
proof (induction "length xs - cur r" arbitrary: r w rule: less_induct)
  case less
  obtain r1 where e: "empty sz r = Inr (cur r = length xs, r1)" "fwd_inv sz xs r1" "cur r1 = cur r"
    using empty_fwd [OF less.prems(1)] by blast
  have le: "cur r \<le> length xs"
    by (rule fwd_inv_cur_le [OF less.prems(1)])
  show ?case
  proof (cases "cur r = length xs")
    case True
    then show ?thesis
      using e less.prems(2) by (subst map_loop.simps) simp
  next
    case False
    obtain r2 where r2: "read sz r1 = Inr (xs ! cur r, r2)" "fwd_inv sz xs r2" "cur r2 = Suc (cur r)"
      using read_fwd [OF e(2)] e(3) False le by auto
    obtain w1 where w1: "write_elem (f (xs ! cur r)) w = Inr w1" "wr_ok w1"
        "w_abs w1 = w_abs w @ f (xs ! cur r)"
      using write_wr_ok [OF less.prems(2)] by blast
    have "length xs - cur r2 < length xs - cur r"
      using r2(3) False le by simp
    then obtain r' w' where ih: "map_loop sz f r2 w1 = Some (Inr (r', w'))" "fwd_inv sz xs r'" "wr_ok w'"
        "w_abs w' = w_abs w1 @ concat (map f (drop (cur r2) xs))"
      using less.hyps [OF _ r2(2) w1(2)] by blast
    have "map_loop sz f r w = map_loop sz f r2 w1"
      using e r2(1) w1(1) False by (subst map_loop.simps) simp
    moreover have "drop (cur r) xs = xs ! cur r # drop (Suc (cur r)) xs"
      using False le by (simp add: Cons_nth_drop_Suc)
    ultimately show ?thesis
      using ih w1(3) r2(3) by simp
  qed
qed

text \<open>Destroying a well-formed reader writes back the file it read.\<close>

lemma reader_close_fwd:
  "fwd_inv sz xs r \<Longrightarrow> fs fname = Some (concat xs) \<Longrightarrow> reader_close fs fname r = fs"
  by (auto simp: fwd_defs reader_close_def fclose_def)

section \<open>Properties\<close>

text \<open>
  C28. Streaming a transform from one file to another: a reader on a file of records of
  \<open>sizeof(T)\<close> bytes and a writer on a different file, each with a buffer of at least one
  record, run the loop \<open>while (!in.empty()) out.write(f(in.read()))\<close> to its end, and their
  destruction leaves the output file holding the images of the records in order, the
  input file and every other file unchanged.
\<close>

theorem transform_output:
  assumes "fs src = Some (concat xs)" "0 < sz" "uniform sz xs" "src \<noteq> dst"
    and "int sz \<le> rbytes" "rbytes < 2 ^ 63" "int sz \<le> wbytes" "wbytes < 2 ^ 63"
  shows "transform sz f fs src dst rbytes wbytes = Some (Inr (fs(dst \<mapsto> concat (map f xs))))"
proof -
  obtain r where r: "stream_reader sz fs src rbytes = Inr r" "fwd_inv sz xs r" "cur r = 0"
    using stream_reader_fwd [where fs = fs and fname = src, OF assms(1-3,5,6)] by blast
  obtain w where w: "stream_writer sz fs dst wbytes = Inr (fs(dst \<mapsto> []), w)" "wr_ok w" "w_abs w = []"
    using stream_writer_wr_ok [OF assms(7,8,2), of fs dst] by blast
  obtain r' w' where l: "map_loop sz f r w = Some (Inr (r', w'))" "fwd_inv sz xs r'" "wr_ok w'"
      "w_abs w' = concat (map f xs)"
    using map_loop_fwd [OF r(2) w(2), of f] r(3) w(3) by auto
  have c: "writer_close (fs(dst \<mapsto> [])) dst w' = Inr (fs(dst \<mapsto> concat (map f xs)))"
    using writer_close_abs [OF l(3)] l(4) by simp
  have "reader_close (fs(dst \<mapsto> concat (map f xs))) src r' = fs(dst \<mapsto> concat (map f xs))"
    using reader_close_fwd [OF l(2)] assms(1,4) by simp
  then show ?thesis
    using r(1) w(1) l(1) c by (simp add: transform_def)
qed

end
