(* ===== verification/Writer_Machine.thy ===== *)
theory Writer_Machine
  imports Writer
begin

text \<open>
  The interface of \<open>stream_writer\<close> as a machine: after construction a caller issues
  \<open>write(x)\<close> calls and finally destroys the writer. The specification is the content
  the file will have: \<open>write(x)\<close> appends the bytes of \<open>x\<close>. The abstraction is
  \<open>w_abs\<close>, the invariant \<open>wr_ok\<close>; the destructor realises the abstract content.
\<close>

datatype wr_op = Op_write elem

fun wr_step :: "wr_op \<Rightarrow> writer \<Rightarrow> stream_error + unit \<times> writer" where
  "wr_step (Op_write x) w = (case write_elem x w of Inl e \<Rightarrow> Inl e | Inr w1 \<Rightarrow> Inr ((), w1))"

fun wr_spec :: "wr_op \<Rightarrow> byte list \<Rightarrow> (unit \<times> byte list) option" where
  "wr_spec (Op_write x) c = Some ((), c @ x)"

section \<open>Lemmas\<close>

lemma wr_step_refines:
  assumes "wr_ok w" and "wr_spec op (w_abs w) = Some (a, c')"
  shows "\<exists>w'. wr_step op w = Inr (a, w') \<and> wr_ok w' \<and> w_abs w' = c'"
proof (cases op)
  case (Op_write x)
  then show ?thesis
    using write_wr_ok [OF assms(1), of x] assms(2) by auto
qed

section \<open>Properties\<close>

text \<open>
  C33. Refinement of the writer: for every sequence of \<open>write\<close> calls, the writer
  performs the calls the append specification describes, stays well formed and
  represents the specified content; destroying it then leaves exactly that content in
  its file.
\<close>

theorem writer_run_refines:
  assumes "wr_ok w" "spec_steps wr_spec ops (w_abs w) = Some (as, c)"
  shows "\<exists>w'. run_steps wr_step ops w = Inr (as, w') \<and> wr_ok w' \<and> w_abs w' = c \<and>
              writer_close fs fname w' = Inr (fs(fname \<mapsto> c))"
proof -
  obtain w' where w': "run_steps wr_step ops w = Inr (as, w')" "wr_ok w'" "w_abs w' = c"
    using run_steps_refines [where I = wr_ok and abst = w_abs and st = wr_step and spec = wr_spec,
        OF wr_step_refines assms] by blast
  then show ?thesis
    using writer_close_abs [OF w'(2)] by simp
qed

end
