(* ===== verification/Spec2Isabelle.thy ===== *)
theory Spec2Isabelle
  imports Reader_Rev_Machine Reader_Random Reader_Realign Pipeline Writer_Machine
begin

text \<open>
  \<^bold>\<open>A verification development for the buffered record streams of webmasterar/maw.\<close>

  \<^emph>\<open>The program.\<close> \<open>src/em-maw/stream.h\<close> declares two class templates over a record
  type \<open>T\<close>: \<open>stream_reader<T>\<close> (lines 21--172), a read-only file handle with a
  \<open>malloc\<close>'d buffer of \<open>m_bufelems\<close> records, served forward (\<open>read\<close>,
  \<open>operator++\<close>, \<open>peek\<close>, \<open>empty\<close>, \<open>goto_set\<close>), backward (\<open>goto_end\<close>,
  \<open>read_reverse\<close>, \<open>empty_reverse\<close>) and by absolute index (\<open>operator[]\<close>,
  \<open>getValue\<close>), with the private refills \<open>refill\<close> and \<open>refill_reverse\<close> that
  move the window \<open>[m_offset, m_offset + m_filled)\<close> over the file; and
  \<open>stream_writer<T>\<close> (lines 174--204), an append-only buffer flushed to the file when
  full and on destruction. The two share nothing but the file system: a caller writes a
  file with one and reads it back with the other, or streams a transform from one file
  to another with one of each.

  \<^emph>\<open>The model.\<close> A file is its bytes (\<open>8 word\<close>) and a byte position, a record of
  type \<open>T\<close> is its \<open>sizeof(T)\<close> bytes, and every operation returns the new state or
  an error value (\<open>stream_error + _\<close>), so that undefined behaviour of the C++ code (an
  index outside the \<open>malloc\<close>'d buffer) and failed assertions are values. \<open>INT\<close>
  and \<open>long\<close> fields are \<open>int\<close>, with the 64-bit \<open>size_t\<close> conversions of the
  source written out where they happen.
  \<^item> \<open>Prelude\<close>: bytes and records, the error values (\<open>Out_of_bounds\<close>,
    \<open>Assert_failed\<close>, \<open>Open_failure\<close>), files of fixed-width records (\<open>uniform\<close>,
    \<open>chunks\<close>), and the conversions \<open>ulong_ge\<close>, \<open>neg_ulong_as_long\<close>,
    \<open>size_t_of\<close> (lines 142, 143, 151--153 and the constructors' divisions), and the
    constructors' \<open>long_of\<close> (the \<open>size_t\<close> quotient stored in the 64-bit
    \<open>INT m_bufelems\<close>) and \<open>alloc_elems\<close> (the records a \<open>malloc\<close> of
    \<open>m_bufelems * sizeof(T)\<close> bytes holds), with their values over the whole
    \<open>INT\<close> range (\<open>long_of_bufelems\<close>).
  \<^item> \<open>CStdio\<close>: \<open>fseek\<close>, \<open>ftell\<close>, \<open>fread\<close>, \<open>fclose\<close> as the C library
    defines them, the buffer with checked indexing (\<open>buf_get\<close>, \<open>buf_set\<close>), and
    \<open>utils::file_open\<close> and \<open>utils::add_objects_to_file\<close>, which are not under
    \<open>src/\<close> and are modelled from the specification.
  \<^item> \<open>Reader\<close>: \<open>struct stream_reader\<close> as the record \<open>reader\<close> and one
    definition per member function, in the order of the source: \<open>refill\<close>,
    \<open>refill_reverse\<close>, \<open>stream_reader\<close> (constructor), \<open>reader_close\<close>
    (destructor), \<open>peek\<close>, \<open>index\<close> (\<open>operator[]\<close>, with the block
    \<open>index_refill\<close> it shares with \<open>getValue\<close>, and \<open>index_write\<close> for an assignment
    through the reference it returns), \<open>getValue\<close>, \<open>incr\<close>
    (\<open>operator++\<close>), \<open>goto_set\<close>, \<open>goto_end\<close>, \<open>read\<close>, \<open>empty\<close>,
    \<open>getpos\<close>, \<open>setpos\<close>, \<open>read_reverse\<close>, \<open>empty_reverse\<close>. \<open>assert\<close> is
    a parameter: compiled in or not.
  \<^item> \<open>Reader_Forward\<close>: the forward window invariant \<open>fwd_inv\<close>, the abstraction
    \<open>cur = m_offset + m_pos\<close> to a cursor over the file's records, one lemma per
    forward operation, the client loops \<open>read_n\<close> and \<open>drain\<close> (fuel), the
    \<open>getpos\<close>/\<open>setpos\<close> rewind (C22), the buffer smaller than a record (C17), the
    extra empty refill after the last record (C15), and the constructor failing exactly
    on an open failure, for every buffer size in \<open>[0, 2^63)\<close> (C29).
  \<^item> \<open>Reader_Reverse\<close>: the reverse invariant \<open>rev_inv\<close> and backward cursor
    \<open>rcur\<close>, the sliding and exhausting cases of \<open>refill_reverse\<close>, the loops
    \<open>read_rev_n\<close> and \<open>drain_rev\<close>, and the equivalence of \<open>refill_reverse\<close>'s
    \<open>size_t\<close> arithmetic with the specification's algorithm in natural numbers,
    \<open>refill_reverse_ref\<close> (C21).
  \<^item> \<open>Reader_Realign\<close>: the reverse refill from states other than the reverse scan's:
    \<open>goto_end(m)\<close> loads the file's last window whatever \<open>m\<close> is and labels it from
    \<open>m\<close> (C16); \<open>read_reverse(true)\<close> after forward reads returns the forward
    window's last record under a label that is off by \<open>m_filled\<close> (C19), and in the
    first window ends the reverse scan at once (C20).
  \<^item> \<open>Reader_Rev_Machine\<close>: \<open>read_reverse()\<close>/\<open>empty_reverse()\<close> as the
    operations \<open>rev_op\<close> of a machine refining a backward cursor (C26), and the
    reverse scan after \<open>goto_end\<close> from any reachable forward reader (C30); the
    unbounded reverse loop \<open>drain_rev_loop\<close> (a partial function) returns (C32).
  \<^item> \<open>Reader_Random\<close>: \<open>operator[]\<close> and \<open>getValue\<close> against a forward scan
    (C7--C10), including the byte-offset reseek of \<open>refill(i)\<close>, and the agreement
    of the two at or above the window start (C25), and the no-seek shortcut for the next
    window against the seeking refill (C31); assignments through the reference
    \<open>operator[]\<close> returns (\<open>index_write\<close>) reach only the buffer, never the file
    (C35).
  \<^item> \<open>Reader_Machine\<close>: the forward interface as a machine: the operations as the
    datatype \<open>fwd_op\<close>, the step function \<open>fwd_step\<close>, the specification
    \<open>cursor_spec\<close> of a cursor over the records, the refinement of runs (C12), the
    inductive set \<open>fwd_reach\<close> of reachable readers with its invariant (C13), reaching
    the end (C24), and the loop \<open>while (!empty()) read()\<close> as the partial function \<open>drain_loop\<close>,
    proved to return (C14).
  \<^item> \<open>Writer\<close>: \<open>struct stream_writer\<close> as the record \<open>writer\<close>, its constructor,
    \<open>write\<close> (\<open>write_elem\<close>), \<open>flush\<close> and destructor (\<open>writer_close\<close>); the
    abstraction \<open>w_abs\<close> (what the file holds once the writer is destroyed) and the
    invariant \<open>wr_ok\<close> (C5, C18), and the reachable writers \<open>wr_reach\<close>, whose
    file grows by whole buffers only (C23), and the capacity a negative \<open>bufsize\<close>
    wraps to (C27).
  \<^item> \<open>Writer_Machine\<close>: \<open>write(x)\<close> as the operation \<open>wr_op\<close> of a machine whose
    runs refine an append specification of the file's content, realised by the
    destructor (C33).
  \<^item> \<open>Pipeline\<close>: the caller the specification describes, one reader and one writer
    on different files streaming \<open>f\<close> over the records: the loop \<open>map_loop\<close>
    (a partial function, proved to return) and the whole program \<open>transform\<close> with
    both destructors, writer first; it leaves the output holding the images of the
    records and every other file unchanged (C28).
  \<^item> this theory: the properties that span components (a full forward scan C1,
    exhaustion C2 and C11, the write/read round trips C3 and C34, persistence C4, the reverse scan
    C6), and the witnesses, which apply each theorem with hypotheses to the example
    readers and files of the section \<open>Examples\<close>.

  \<^emph>\<open>Findings.\<close> \<open>refill(i)\<close> seeks to byte \<open>i\<close> rather than record \<open>i\<close>, so a
  reseek of \<open>operator[]\<close>/\<open>getValue\<close> returns the wrong record for records of more
  than one byte (C9); \<open>read_reverse(true)\<close> after forward reads returns the wrong
  record under a wrong label, and in the first window ends the reverse scan (C19, C20);
  a buffer smaller than one record gives a reader that reports every file empty and a
  writer that overflows its buffer (C17, C18); reading the last record performs one more
  refill that loads nothing, so the specification's scenario of 10 records in windows of
  4 takes four refills, not three (C15); the reverse windows come from the end of the
  file, full ones first, not in the specification's order (2, 4, 4), and
  \<open>goto_end(m)\<close> never checks \<open>m\<close> against the file (C16); a negative buffer size
  wraps through \<open>size_t\<close> to a capacity of about \<open>2^64 / sizeof(T)\<close>, or stays
  negative for one-byte records (C27); assignments through \<open>operator[]\<close> never reach
  the file (C35).

  \<^emph>\<open>Fuel and termination.\<close> \<open>drain\<close> and \<open>drain_rev\<close> spend one unit per
  iteration; \<open>n + 1\<close> units suffice for \<open>n\<close> records (\<open>n\<close> reads and the final
  emptiness test), and the theorems state that this fuel gives a result. \<open>drain_loop\<close>,
  \<open>drain_rev_loop\<close> and \<open>map_loop\<close> have no fuel; C14, C32 and C28 prove they return,
  by induction on the records left.

  \<^emph>\<open>Bounds.\<close> Buffers are below \<open>2^63\<close> bytes (an \<open>INT\<close> of 64 bits); C27 covers
  the whole range \<open>[-2^63, 2^63)\<close> of the constructor's parameter. The
  reverse theorems ask twice the buffer and the file to stay below \<open>2^63\<close> bytes, so that
  \<open>m_bufelems * sizeof(T) * 2\<close> fits a \<open>size_t\<close> and the file position a \<open>long\<close>.

  \<^emph>\<open>Not modelled.\<close> The return values of \<open>goto_set\<close>/\<open>goto_end\<close> (declared
  \<open>bool\<close>, they return nothing, which is undefined behaviour when used); allocation
  failure (\<open>malloc\<close>'s result is not checked; C29 is therefore stated only for buffer
  sizes in \<open>[0, 2^63)\<close>, not for the negative ones whose \<open>malloc\<close> fails); I/O errors of the C library; the
  contents of a partially read trailing record; the 32-bit \<open>INT\<close> configuration
  (\<open>_USE_32\<close>: the model fixes \<open>_USE_64\<close>, where \<open>INT\<close> is \<open>int64_t\<close>; with
  \<open>int32_t\<close> the stores into \<open>m_bufelems\<close> and \<open>m_filled\<close> would truncate to 32
  bits); a reader and a writer open on the same file at once (a handle holds
  its own copy of the file's bytes, so the writer's truncating open is not seen by a
  reader of the same file; C28 therefore asks for two different files).
\<close>

section \<open>Examples\<close>

definition ex_records :: "elem list" where
  "ex_records = [[1, 2], [3, 4], [5, 6]]"

definition ex_writer :: writer where
  "ex_writer = \<lparr>w_file = \<lparr>contents = [7, 8], fpos = 2\<rparr>, w_bufelems = 2, w_filled = 1,
                 w_buffer = [[1, 2], [0, 0]]\<rparr>"

definition ex_bytes :: "elem list" where
  "ex_bytes = [[1], [2], [3], [4], [5]]"

text \<open>A reader of one-byte records whose window holds records 2 and 3.\<close>

definition ex_byte_reader :: reader where
  "ex_byte_reader = \<lparr>m_file = \<lparr>contents = [1, 2, 3, 4, 5], fpos = 4\<rparr>, m_bufelems = 2,
     m_filled = 2, m_pos = 0, m_offset = 2, m_buffer = [[3], [4]]\<rparr>"

text \<open>A reader of two-byte records over \<open>ex_records\<close> whose window holds record 0.\<close>

definition ex_rec_reader :: reader where
  "ex_rec_reader = \<lparr>m_file = \<lparr>contents = [1, 2, 3, 4, 5, 6], fpos = 2\<rparr>, m_bufelems = 1,
     m_filled = 1, m_pos = 0, m_offset = 0, m_buffer = [[1, 2]]\<rparr>"

text \<open>A reader of one-byte records whose cursor is on the last record of \<open>ex_bytes\<close>.\<close>

definition ex_last_reader :: reader where
  "ex_last_reader = \<lparr>m_file = \<lparr>contents = [1, 2, 3, 4, 5], fpos = 5\<rparr>, m_bufelems = 2,
     m_filled = 1, m_pos = 0, m_offset = 4, m_buffer = [[5], [4]]\<rparr>"

text \<open>The scenario of the specification: ten 4-byte integers 0, \<dots>, 9 (little endian).\<close>

definition ex10 :: "elem list" where
  "ex10 = [[0, 0, 0, 0], [1, 0, 0, 0], [2, 0, 0, 0], [3, 0, 0, 0], [4, 0, 0, 0],
           [5, 0, 0, 0], [6, 0, 0, 0], [7, 0, 0, 0], [8, 0, 0, 0], [9, 0, 0, 0]]"

definition ex10_fs :: fsys where
  "ex10_fs = [''ints'' \<mapsto> concat ex10]"

definition ex_fs :: fsys where
  "ex_fs = [''in'' \<mapsto> concat ex_records]"

text \<open>The definitions a concrete run of the reader unfolds.\<close>

lemmas scenario_simps = stream_reader_def file_open_def refill_def fread_def Let_def chunks.simps
  size_t_of_def to_ulong_def long_of_small alloc_elems_def read_def buf_get_def read_n_numeral One_nat_def
  ex10_fs_def ex10_def

lemmas scenario_rev_simps = goto_end_def refill_reverse_def read_reverse_def empty_reverse_def
  fseek_def ftell_def ulong_ge_int neg_ulong_as_long_int size_t_of_int read_rev_n_numeral

section \<open>Forward scanning\<close>

text \<open>
  C1. Scanning a file forward to the end: a reader constructed on a file of \<open>n\<close> records
  of \<open>sizeof(T)\<close> bytes, with a buffer of at least one record, delivers through
  \<open>while (!empty()) read()\<close> exactly the records of the file in order, within \<open>n + 1\<close>
  iterations, for every buffer size.
\<close>

theorem forward_scan:
  assumes "fs fname = Some (concat xs)" "0 < sz" "uniform sz xs"
    and "int sz \<le> buf_bytes" "buf_bytes < 2 ^ 63"
  shows "\<exists>r. stream_reader sz fs fname buf_bytes = Inr r \<and> drain sz (Suc (length xs)) r = Some (Inr xs)"
proof -
  obtain r where r: "stream_reader sz fs fname buf_bytes = Inr r" "fwd_inv sz xs r" "cur r = 0"
    using stream_reader_fwd [where fs = fs and fname = fname and xs = xs, OF assms] by blast
  have "drain sz (Suc (length xs)) r = Some (Inr (drop (cur r) xs))"
    by (rule drain_fwd [OF r(2)]) simp
  then show ?thesis
    using r(1,3) by simp
qed

theorem forward_scan_witness:
  "\<exists>r. stream_reader 2 ex_fs ''in'' 4 = Inr r \<and> drain 2 (Suc (length ex_records)) r = Some (Inr ex_records)"
  by (rule forward_scan) (simp_all add: ex_fs_def ex_records_def)

text \<open>
  C2. Exhaustion: after \<open>k\<close> reads from a freshly constructed reader, which return the
  first \<open>k\<close> records, \<open>empty()\<close> answers true exactly when \<open>k\<close> is the number of
  records, and answers the same when asked again.
\<close>

theorem empty_exactly_at_end:
  assumes "fs fname = Some (concat xs)" "0 < sz" "uniform sz xs"
    and "int sz \<le> buf_bytes" "buf_bytes < 2 ^ 63" and "k \<le> length xs"
  shows "\<exists>r r1 r2 r3. stream_reader sz fs fname buf_bytes = Inr r \<and>
           read_n sz k r = Inr (take k xs, r1) \<and>
           empty sz r1 = Inr (k = length xs, r2) \<and> empty sz r2 = Inr (k = length xs, r3)"
proof -
  obtain r where r: "stream_reader sz fs fname buf_bytes = Inr r" "fwd_inv sz xs r" "cur r = 0"
    using stream_reader_fwd [where fs = fs and fname = fname and xs = xs, OF assms(1-5)] by blast
  obtain r1 where r1: "read_n sz k r = Inr (take k xs, r1)" "fwd_inv sz xs r1" "cur r1 = k"
    using read_n_fwd [OF r(2)] r(3) assms(6) by auto
  obtain r2 where r2: "empty sz r1 = Inr (k = length xs, r2)" "fwd_inv sz xs r2" "cur r2 = k"
    using empty_fwd [OF r1(2)] r1(3) by auto
  obtain r3 where r3: "empty sz r2 = Inr (k = length xs, r3)"
    using empty_fwd [OF r2(2)] r2(3) by auto
  show ?thesis
    using r r1 r2 r3 by blast
qed

theorem empty_exactly_at_end_witness:
  "\<exists>r r1 r2 r3. stream_reader 2 ex_fs ''in'' 4 = Inr r \<and>
     read_n 2 3 r = Inr (take 3 ex_records, r1) \<and>
     empty 2 r1 = Inr (3 = length ex_records, r2) \<and> empty 2 r2 = Inr (3 = length ex_records, r3)"
  by (rule empty_exactly_at_end) (simp_all add: ex_fs_def ex_records_def)

section \<open>Writing, and reading back\<close>

text \<open>
  C3. Round trip: records of \<open>sizeof(T)\<close> bytes written in order by a \<open>stream_writer\<close>
  with a buffer of one capacity, then read back to the end by a \<open>stream_reader\<close> with a
  buffer of any other capacity, come back as the same records in the same order.
\<close>

theorem write_then_read:
  assumes "0 < sz" "uniform sz ys"
    and "int sz \<le> wbytes" "wbytes < 2 ^ 63" "int sz \<le> rbytes" "rbytes < 2 ^ 63"
  shows "\<exists>fs1 w w' fs2 r. stream_writer sz fs fname wbytes = Inr (fs1, w) \<and> write_all ys w = Inr w' \<and>
           writer_close fs1 fname w' = Inr fs2 \<and> stream_reader sz fs2 fname rbytes = Inr r \<and>
           drain sz (Suc (length ys)) r = Some (Inr ys)"
proof -
  obtain w where w: "stream_writer sz fs fname wbytes = Inr (fs(fname \<mapsto> []), w)" "wr_ok w" "w_abs w = []"
    using stream_writer_wr_ok [OF assms(3,4,1), of fs fname] by blast
  obtain w' where w': "write_all ys w = Inr w'" "wr_ok w'" "w_abs w' = concat ys"
    using write_all_wr_ok [OF w(2)] w(3) by auto
  let ?fs2 = "(fs(fname \<mapsto> []))(fname \<mapsto> w_abs w')"
  have close: "writer_close (fs(fname \<mapsto> [])) fname w' = Inr ?fs2"
    by (rule writer_close_abs [OF w'(2)])
  have "?fs2 fname = Some (concat ys)"
    using w'(3) by simp
  then obtain r where r: "stream_reader sz ?fs2 fname rbytes = Inr r" "fwd_inv sz ys r" "cur r = 0"
    using stream_reader_fwd [where fs = ?fs2 and fname = fname and xs = ys] assms(1,2,5,6) by blast
  have "drain sz (Suc (length ys)) r = Some (Inr (drop (cur r) ys))"
    by (rule drain_fwd [OF r(2)]) simp
  then show ?thesis
    using w w' close r by auto
qed

theorem write_then_read_witness:
  "\<exists>fs1 w w' fs2 r. stream_writer 2 ex_fs ''out'' 4 = Inr (fs1, w) \<and> write_all ex_records w = Inr w' \<and>
     writer_close fs1 ''out'' w' = Inr fs2 \<and> stream_reader 2 fs2 ''out'' 6 = Inr r \<and>
     drain 2 (Suc (length ex_records)) r = Some (Inr ex_records)"
  by (rule write_then_read) (simp_all add: ex_records_def)

text \<open>
  C4. A writer persists exactly what was written, short final batch included: after
  construction and \<open>k\<close> writes the file on disk is still empty when \<open>k\<close> is below the
  buffer capacity (nothing has been flushed), and after destruction it holds all \<open>k\<close>
  records in order; no other file changes.
\<close>

theorem writer_persists:
  assumes "0 < sz" "int sz \<le> bufsize" "bufsize < 2 ^ 63"
  shows "\<exists>fs1 w w'. stream_writer sz fs fname bufsize = Inr (fs1, w) \<and> write_all ys w = Inr w' \<and>
           (int (length ys) < w_bufelems w \<longrightarrow> contents (w_file w') = []) \<and>
           writer_close fs1 fname w' = Inr (fs(fname \<mapsto> concat ys))"
proof -
  obtain w where w: "stream_writer sz fs fname bufsize = Inr (fs(fname \<mapsto> []), w)" "wr_ok w" "w_abs w = []"
      "w_filled w = 0" "contents (w_file w) = []"
    using stream_writer_wr_ok [OF assms(2,3,1), of fs fname] by blast
  obtain w' where w': "write_all ys w = Inr w'" "wr_ok w'" "w_abs w' = concat ys"
    using write_all_wr_ok [OF w(2)] w(3) by auto
  have short: "int (length ys) < w_bufelems w \<longrightarrow> contents (w_file w') = []"
  proof
    assume "int (length ys) < w_bufelems w"
    then have "w_file w' = w_file w"
      using w(4) by (intro write_all_short [OF w(2) _ w'(1)]) simp
    then show "contents (w_file w') = []"
      using w(5) by simp
  qed
  have "writer_close (fs(fname \<mapsto> [])) fname w' = Inr ((fs(fname \<mapsto> []))(fname \<mapsto> concat ys))"
    using writer_close_abs [OF w'(2)] w'(3) by simp
  then have close: "writer_close (fs(fname \<mapsto> [])) fname w' = Inr (fs(fname \<mapsto> concat ys))"
    by simp
  show ?thesis
    using w(1) w'(1) short close by blast
qed

theorem writer_persists_witness:
  "\<exists>fs1 w w'. stream_writer 2 ex_fs ''out'' 16 = Inr (fs1, w) \<and> write_all ex_records w = Inr w' \<and>
     (int (length ex_records) < w_bufelems w \<longrightarrow> contents (w_file w') = []) \<and>
     writer_close fs1 ''out'' w' = Inr (ex_fs(''out'' \<mapsto> concat ex_records))"
  by (rule writer_persists) simp_all

theorem write_step_witness:
  "wr_ok ex_writer \<and>
   (\<exists>w'. write_elem [3, 4] ex_writer = Inr w' \<and> wr_ok w' \<and>
      (if w_filled ex_writer + 1 = w_bufelems ex_writer
       then contents (w_file w') = w_abs ex_writer @ [3, 4] \<and> w_filled w' = 0
       else w_file w' = w_file ex_writer \<and> w_filled w' = w_filled ex_writer + 1 \<and>
            take (nat (w_filled w')) (w_buffer w') = take (nat (w_filled ex_writer)) (w_buffer ex_writer) @ [[3, 4]]))"
proof -
  have ok: "wr_ok ex_writer"
    by (simp add: wr_ok_def ex_writer_def)
  show ?thesis
    using ok Writer.write_step [OF ok, of "[3, 4]"] by simp
qed

theorem writer_flushes_whole_buffers_witness:
  "\<exists>w0 w1 w2 w3. stream_writer 2 ex_fs ''out'' 4 = Inr (ex_fs(''out'' \<mapsto> []), w0) \<and>
     write_elem [1, 2] w0 = Inr w1 \<and> write_elem [3, 4] w1 = Inr w2 \<and> write_elem [5, 6] w2 = Inr w3 \<and>
     contents (w_file w3) = [1, 2, 3, 4] \<and> wr_ok w3 \<and> uniform 2 (take (nat (w_filled w3)) (w_buffer w3)) \<and>
     length (contents (w_file w3)) mod (nat (w_bufelems w3) * 2) = 0"
proof -
  define w0 where "w0 = \<lparr>w_file = \<lparr>contents = [], fpos = 0\<rparr>, w_bufelems = 2, w_filled = 0,
                          w_buffer = [[0, 0], [0, 0]]\<rparr>"
  define w1 where "w1 = w0\<lparr>w_buffer := [[1, 2], [0, 0]], w_filled := 1\<rparr>"
  define w2 where "w2 = w0\<lparr>w_file := \<lparr>contents = [1, 2, 3, 4], fpos = 4\<rparr>, w_buffer := [[1, 2], [3, 4]]\<rparr>"
  define w3 where "w3 = w2\<lparr>w_buffer := [[5, 6], [3, 4]], w_filled := 1\<rparr>"
  have "long_of (size_t_of 4 div 2) = 2" "alloc_elems 2 2 = 2"
    using ctor_bufelems [of 4 2] by simp_all
  moreover have "replicate 2 (replicate 2 0) = [[0, 0], [0, 0 :: byte]]"
    by (simp add: numeral_2_eq_2)
  ultimately have s0: "stream_writer 2 ex_fs ''out'' 4 = Inr (ex_fs(''out'' \<mapsto> []), w0)"
    by (simp add: stream_writer_def file_open_def w0_def Let_def)
  have s1: "write_elem [1, 2] w0 = Inr w1" and s2: "write_elem [3, 4] w1 = Inr w2"
    and s3: "write_elem [5, 6] w2 = Inr w3"
    by (simp_all add: write_elem_def flush_def add_objects_to_file_def w0_def w1_def w2_def w3_def)
  have "wr_reach 2 w3"
    by (rule wr_reach.step [OF wr_reach.step [OF wr_reach.step [OF wr_reach.start [OF _ _ _ s0] _ s1] _ s2] _ s3])
      simp_all
  then have "wr_ok w3 \<and> uniform 2 (take (nat (w_filled w3)) (w_buffer w3)) \<and>
             length (contents (w_file w3)) mod (nat (w_bufelems w3) * 2) = 0"
    by (rule Writer.writer_flushes_whole_buffers)
  then have c: "wr_ok w3" "uniform 2 (take (nat (w_filled w3)) (w_buffer w3))"
    "length (contents (w_file w3)) mod (nat (w_bufelems w3) * 2) = 0"
    by blast+
  have "contents (w_file w3) = [1, 2, 3, 4]"
    by (simp add: w3_def w2_def)
  then show ?thesis
    using s0 s1 s2 s3 c by (intro exI conjI) assumption+
qed

section \<open>Reverse scanning\<close>

text \<open>
  C6. Reverse symmetry: a reader moved with \<open>goto_end(n)\<close> to the end of a file of
  \<open>n\<close> records delivers through \<open>while (!empty_reverse()) read_reverse()\<close> the records
  of the file in reverse order, within \<open>n + 1\<close> iterations, for every buffer size, as
  long as the file and twice the buffer are below \<open>2^63\<close> bytes.
\<close>

theorem reverse_scan:
  assumes "fs fname = Some (concat xs)" "0 < sz" "uniform sz xs"
    and "int sz \<le> buf_bytes" "2 * buf_bytes < 2 ^ 63" "int (length xs * sz) < 2 ^ 63"
  shows "\<exists>r r1. stream_reader sz fs fname buf_bytes = Inr r \<and> goto_end sz (int (length xs)) r = Inr r1 \<and>
           drain_rev sz (Suc (length xs)) r1 = Some (Inr (rev xs))"
proof -
  obtain r r1 where r: "stream_reader sz fs fname buf_bytes = Inr r" "goto_end sz (int (length xs)) r = Inr r1"
      "rev_inv sz xs r1" "rcur r1 = length xs"
    using reader_at_end [where fs = fs and fname = fname and xs = xs, OF assms] by blast
  have "drain_rev sz (Suc (length xs)) r1 = Some (Inr (rev (take (rcur r1) xs)))"
    by (rule drain_rev_rev [OF r(3)]) (simp add: r(4))
  then show ?thesis
    using r by auto
qed

theorem reverse_scan_witness:
  "\<exists>r r1. stream_reader 2 ex_fs ''in'' 4 = Inr r \<and> goto_end 2 (int (length ex_records)) r = Inr r1 \<and>
     drain_rev 2 (Suc (length ex_records)) r1 = Some (Inr (rev ex_records))"
  by (rule reverse_scan) (simp_all add: ex_fs_def ex_records_def)

theorem drain_rev_loop_terminates_witness:
  "\<exists>r r1. stream_reader 2 ex_fs ''in'' 4 = Inr r \<and> goto_end 2 3 r = Inr r1 \<and>
     drain_rev_loop 2 r1 = Some (Inr (rev ex_records))"
proof -
  have "\<exists>r r1. stream_reader 2 ex_fs ''in'' 4 = Inr r \<and> goto_end 2 (int (length ex_records)) r = Inr r1 \<and>
          rev_inv 2 ex_records r1 \<and> rcur r1 = length ex_records"
    by (rule reader_at_end) (simp_all add: ex_fs_def ex_records_def)
  then obtain r r1 where r: "stream_reader 2 ex_fs ''in'' 4 = Inr r" "goto_end 2 (int (length ex_records)) r = Inr r1"
      "rev_inv 2 ex_records r1" "rcur r1 = length ex_records"
    by blast
  have "drain_rev_loop 2 r1 = Some (Inr (rev ex_records))"
    using Reader_Rev_Machine.drain_rev_loop_terminates [OF r(3)] r(4) by simp
  moreover have "int (length ex_records) = 3"
    by (simp add: ex_records_def)
  ultimately show ?thesis
    using r(1,2) by auto
qed

text \<open>
  C11. Reverse exhaustion: after \<open>goto_end(n)\<close> and \<open>k\<close> reverse reads, which return
  the last \<open>k\<close> records from the end down, \<open>empty_reverse()\<close> answers true exactly when
  \<open>k = n\<close>, and answers the same when asked again.
\<close>

theorem empty_reverse_exactly_at_start:
  assumes "fs fname = Some (concat xs)" "0 < sz" "uniform sz xs"
    and "int sz \<le> buf_bytes" "2 * buf_bytes < 2 ^ 63" "int (length xs * sz) < 2 ^ 63"
    and "k \<le> length xs"
  shows "\<exists>r r1 r2 r3 r4. stream_reader sz fs fname buf_bytes = Inr r \<and> goto_end sz (int (length xs)) r = Inr r1 \<and>
           read_rev_n sz k r1 = Inr (rev (drop (length xs - k) xs), r2) \<and>
           empty_reverse sz r2 = Inr (k = length xs, r3) \<and> empty_reverse sz r3 = Inr (k = length xs, r4)"
proof -
  obtain r r1 where r: "stream_reader sz fs fname buf_bytes = Inr r" "goto_end sz (int (length xs)) r = Inr r1"
      "rev_inv sz xs r1" "rcur r1 = length xs"
    using reader_at_end [where fs = fs and fname = fname and xs = xs, OF assms(1-6)] by blast
  obtain r2 where r2: "read_rev_n sz k r1 = Inr (rev (drop (length xs - k) xs), r2)" "rev_inv sz xs r2"
      "rcur r2 = length xs - k"
    using read_rev_n_rev [OF r(3)] r(4) assms(7) by auto
  have e2: "(rcur r2 = 0) = (k = length xs)"
    using r2(3) assms(7) by auto
  obtain r3 where r3: "empty_reverse sz r2 = Inr (k = length xs, r3)" "rev_inv sz xs r3" "rcur r3 = rcur r2"
    using empty_reverse_rev [OF r2(2)] unfolding e2 by blast
  have e3: "(rcur r3 = 0) = (k = length xs)"
    using r3(3) e2 by simp
  obtain r4 where r4: "empty_reverse sz r3 = Inr (k = length xs, r4)"
    using empty_reverse_rev [OF r3(2)] unfolding e3 by blast
  show ?thesis
    using r r2 r3 r4 by blast
qed

theorem empty_reverse_exactly_at_start_witness:
  "\<exists>r r1 r2 r3 r4. stream_reader 2 ex_fs ''in'' 4 = Inr r \<and> goto_end 2 (int (length ex_records)) r = Inr r1 \<and>
     read_rev_n 2 2 r1 = Inr (rev (drop (length ex_records - 2) ex_records), r2) \<and>
     empty_reverse 2 r2 = Inr (2 = length ex_records, r3) \<and> empty_reverse 2 r3 = Inr (2 = length ex_records, r4)"
  by (rule empty_reverse_exactly_at_start) (simp_all add: ex_fs_def ex_records_def)

theorem rev_run_refines_witness:
  "\<exists>r r1 r'. stream_reader 2 ex_fs ''in'' 4 = Inr r \<and> goto_end 2 3 r = Inr r1 \<and>
     run_steps (rev_step 2) [Op_read_reverse, Op_empty_reverse, Op_read_reverse, Op_read_reverse, Op_empty_reverse] r1 =
       Inr ([Rec [5, 6], Flag False, Rec [3, 4], Rec [1, 2], Flag True], r')"
proof -
  have f: "ex_fs ''in'' = Some (concat ex_records)" "uniform 2 ex_records"
    by (simp_all add: ex_fs_def ex_records_def)
  obtain r r1 where r: "stream_reader 2 ex_fs ''in'' 4 = Inr r" "goto_end 2 (int (length ex_records)) r = Inr r1"
      "rev_inv 2 ex_records r1" "rcur r1 = length ex_records"
    using reader_at_end [where fs = ex_fs and fname = "''in''" and xs = ex_records and buf_bytes = 4, OF f(1) _ f(2)]
    by (auto simp: ex_records_def)
  have sp: "spec_steps (rev_spec ex_records)
      [Op_read_reverse, Op_empty_reverse, Op_read_reverse, Op_read_reverse, Op_empty_reverse] (rcur r1) =
      Some ([Rec [5, 6], Flag False, Rec [3, 4], Rec [1, 2], Flag True], 0)"
    using r(4) by (simp add: ex_records_def)
  show ?thesis
    using Reader_Rev_Machine.rev_run_refines [OF r(3) sp] r(1,2) by (auto simp: ex_records_def)
qed

section \<open>Random access\<close>

lemma ex_byte_reader_fwd: "fwd_inv 1 ex_bytes ex_byte_reader"
  by (simp add: fwd_defs ex_bytes_def ex_byte_reader_def)

lemma ex_rec_reader_fwd: "fwd_inv 2 ex_records ex_rec_reader"
  by (simp add: fwd_defs ex_records_def ex_rec_reader_def)

theorem get_all_consistent_witness:
  "\<exists>r'. get_all False 1 [4, 0, 3, 2] ex_byte_reader = Inr ([[5], [1], [4], [3]], r') \<and> fwd_inv 1 ex_bytes r'"
proof -
  have ix: "\<forall>i \<in> set [4, 0, 3, 2]. 0 \<le> i \<and> i < int (length ex_bytes)"
    by (simp add: ex_bytes_def)
  have m: "map (\<lambda>i. ex_bytes ! nat i) [4, 0, 3, 2] = [[5], [1], [4], [3]]"
    by (simp add: ex_bytes_def)
  show ?thesis
    using Reader_Random.get_all_consistent [OF ex_byte_reader_fwd ix] unfolding m .
qed

theorem next_window_refill_eq_seek_witness:
  "refill 1 (-1) ex_byte_reader = refill 1 4 ex_byte_reader"
proof -
  have "m_offset ex_byte_reader + m_filled ex_byte_reader = 4"
    by (simp add: ex_byte_reader_def)
  then show ?thesis
    using Reader_Random.next_window_refill_eq_seek [OF ex_byte_reader_fwd] by simp
qed

theorem index_write_buffer_only_witness:
  "\<exists>r'. index_write False 1 3 [9] ex_byte_reader = Inr r' \<and> m_file r' = m_file ex_byte_reader \<and>
     m_offset r' = 2 \<and> m_filled r' = 2 \<and> index False 1 3 r' = Inr ([9], r')"
proof -
  have fr: "frame 1 ex_bytes ex_byte_reader"
    using ex_byte_reader_fwd by (simp add: fwd_inv_def)
  have "m_offset ex_byte_reader = 2" "m_filled ex_byte_reader = 2"
    by (simp_all add: ex_byte_reader_def)
  then show ?thesis
    using Reader_Random.index_write_buffer_only [OF fr, of 3 False "[9]"] by simp
qed

theorem index_consistent_witness:
  "\<exists>r'. index True 2 1 ex_rec_reader = Inr ([3, 4], r') \<and> fwd_inv 2 ex_records r'"
  using Reader_Random.index_consistent [OF ex_rec_reader_fwd, of 1 True]
  by (simp add: ex_records_def ex_rec_reader_def)

theorem reseek_reads_byte_offset_witness:
  "\<exists>r1 r2. index True 2 2 ex_rec_reader = Inr ([3, 4], r1) \<and> getValue True 2 2 ex_rec_reader = Inr ([3, 4], r2) \<and>
     ex_records ! 2 = [5, 6]"
proof -
  have far: "m_offset ex_rec_reader + m_filled ex_rec_reader + m_bufelems ex_rec_reader \<le> 2"
    by (simp add: ex_rec_reader_def)
  have "\<exists>r1 r2. index True 2 2 ex_rec_reader = Inr (ex_records ! 1, r1) \<and>
      getValue True 2 2 ex_rec_reader = Inr (ex_records ! 1, r2)"
    using Reader_Random.reseek_reads_byte_offset [OF ex_rec_reader_fwd far, of 1 True]
    by (simp add: ex_records_def)
  then show ?thesis
    by (simp add: ex_records_def)
qed

theorem getValue_eq_index_witness:
  "getValue False 2 2 ex_rec_reader = index False 2 2 ex_rec_reader \<and>
   getValue True 1 4 ex_byte_reader = index True 1 4 ex_byte_reader"
proof -
  have h: "m_offset ex_rec_reader \<le> 2" "0 \<le> m_bufelems ex_rec_reader"
    "m_offset ex_byte_reader \<le> 4" "0 \<le> m_bufelems ex_byte_reader"
    by (simp_all add: ex_rec_reader_def ex_byte_reader_def)
  show ?thesis
    by (rule conjI [OF Reader_Random.getValue_eq_index [OF h(1,2)] Reader_Random.getValue_eq_index [OF h(3,4)]])
qed

theorem index_below_window_witness:
  "index True 1 0 ex_byte_reader = Inl Assert_failed \<and> getValue True 1 0 ex_byte_reader = Inl Assert_failed \<and>
   index False 1 0 ex_byte_reader = Inl Out_of_bounds"
  using Reader_Random.index_below_window [of 0 ex_byte_reader 1]
  by (simp add: ex_byte_reader_def)

section \<open>The forward interface as a machine\<close>

lemma ex_reader_start:
  "\<exists>r. stream_reader 2 ex_fs ''in'' 4 = Inr r \<and> fwd_reach 2 ex_records r \<and> fwd_inv 2 ex_records r \<and> cur r = 0"
proof -
  have f: "ex_fs ''in'' = Some (concat ex_records)" "uniform 2 ex_records"
    by (simp_all add: ex_fs_def ex_records_def)
  obtain r where r: "stream_reader 2 ex_fs ''in'' 4 = Inr r" "fwd_inv 2 ex_records r" "cur r = 0"
    using stream_reader_fwd [where fs = ex_fs and fname = "''in''" and xs = ex_records and buf_bytes = 4,
        OF f(1) _ f(2)] by auto
  moreover have "fwd_reach 2 ex_records r"
    by (rule fwd_reach.start [OF f(1) _ f(2) _ _ r(1)]) simp_all
  ultimately show ?thesis
    by blast
qed

theorem fwd_run_refines_witness:
  "\<exists>r r'. stream_reader 2 ex_fs ''in'' 4 = Inr r \<and>
     fwd_run 2 [Op_read, Op_peek, Op_empty, Op_goto_set, Op_read] r =
       Inr ([Rec [1, 2], Rec [3, 4], Flag False, No_value, Rec [1, 2]], r') \<and> cur r' = 1"
proof -
  obtain r where r: "stream_reader 2 ex_fs ''in'' 4 = Inr r" "fwd_inv 2 ex_records r" "cur r = 0"
    using ex_reader_start by blast
  have sp: "spec_run ex_records [Op_read, Op_peek, Op_empty, Op_goto_set, Op_read] (cur r) =
              Some ([Rec [1, 2], Rec [3, 4], Flag False, No_value, Rec [1, 2]], 1)"
    using r(3) by (simp add: ex_records_def)
  show ?thesis
    using Reader_Machine.fwd_run_refines [OF r(2) sp] r(1) by blast
qed

theorem reachable_window_witness:
  "\<exists>r. fwd_reach 2 ex_records r \<and>
     0 \<le> m_pos r \<and> m_pos r \<le> m_filled r \<and> m_filled r \<le> m_bufelems r \<and>
     int (length (m_buffer r)) = m_bufelems r \<and> 0 \<le> m_offset r \<and>
     m_offset r + m_filled r \<le> int (length ex_records) \<and>
     take (nat (m_filled r)) (m_buffer r) = take (nat (m_filled r)) (drop (nat (m_offset r)) ex_records) \<and>
     fpos (m_file r) = nat (m_offset r + m_filled r) * 2"
proof -
  obtain r where "fwd_reach 2 ex_records r"
    using ex_reader_start by blast
  then show ?thesis
    using Reader_Machine.reachable_window [of 2 ex_records r] by blast
qed

theorem drain_loop_terminates_witness:
  "drain_loop 2 ex_rec_reader = Some (Inr ex_records)"
proof -
  have "cur ex_rec_reader = 0"
    by (simp add: cur_def ex_rec_reader_def)
  then show ?thesis
    using Reader_Machine.drain_loop_terminates [OF ex_rec_reader_fwd] by simp
qed

theorem reachable_reaches_end_witness:
  "\<exists>r r1 r2. stream_reader 2 ex_fs ''in'' 4 = Inr r \<and>
     read_n 2 3 r = Inr (ex_records, r1) \<and> empty 2 r1 = Inr (True, r2)"
proof -
  obtain r where r: "stream_reader 2 ex_fs ''in'' 4 = Inr r" "fwd_reach 2 ex_records r" "cur r = 0"
    using ex_reader_start by blast
  have "length ex_records - cur r = 3"
    using r(3) by (simp add: ex_records_def)
  then show ?thesis
    using Reader_Machine.reachable_reaches_end [OF r(2)] r(1,3) by auto
qed

theorem reachable_reverse_scan_witness:
  "\<exists>r r1. stream_reader 2 ex_fs ''in'' 4 = Inr r \<and> goto_end 2 3 r = Inr r1 \<and>
     drain_rev 2 4 r1 = Some (Inr (rev ex_records))"
proof -
  obtain r where r: "stream_reader 2 ex_fs ''in'' 4 = Inr r" "fwd_reach 2 ex_records r"
    using ex_reader_start by blast
  have "m_bufelems r = 2"
    using r(1) by (auto simp: scenario_simps ex_fs_def ex_records_def)
  then have h: "int (length ex_records * 2) < 2 ^ 63" "m_bufelems r * int 2 * 2 < 2 ^ 63"
    by (simp_all add: ex_records_def)
  have l: "int (length ex_records) = 3" "Suc (length ex_records) = 4"
    by (simp_all add: ex_records_def)
  have "\<exists>r1. goto_end 2 (int (length ex_records)) r = Inr r1 \<and>
          drain_rev 2 (Suc (length ex_records)) r1 = Some (Inr (rev ex_records))"
    by (rule Reader_Rev_Machine.reachable_reverse_scan [OF r(2) h])
  then show ?thesis
    unfolding l using r(1) by blast
qed

section \<open>Rewinding within the window\<close>

theorem setpos_rewinds_witness:
  "\<exists>r1. read_n 1 1 ex_byte_reader = Inr ([[3]], r1) \<and> setpos (getpos ex_byte_reader) r1 = ex_byte_reader"
proof -
  have k: "m_pos ex_byte_reader + int 1 < m_filled ex_byte_reader" and c: "cur ex_byte_reader = 2"
    by (simp_all add: ex_byte_reader_def cur_def)
  show ?thesis
    using Reader_Forward.setpos_rewinds [OF ex_byte_reader_fwd k] c by (simp add: ex_bytes_def)
qed

section \<open>Buffers smaller than a record\<close>

theorem small_buffer_reads_nothing_witness:
  "\<exists>r r1. stream_reader 2 ex_fs ''in'' 1 = Inr r \<and> m_bufelems r = 0 \<and>
     empty 2 r = Inr (True, r1) \<and> read 2 r1 = Inl Out_of_bounds"
  by (rule Reader_Forward.small_buffer_reads_nothing [of ex_fs "''in''" "concat ex_records"])
    (simp_all add: ex_fs_def)

theorem small_buffer_write_overflows_witness:
  "\<exists>w. stream_writer 2 ex_fs ''out'' 1 = Inr (ex_fs(''out'' \<mapsto> []), w) \<and> w_bufelems w = 0 \<and>
     write_elem [1, 2] w = Inl Out_of_bounds"
  by (rule Writer.small_buffer_write_overflows) simp_all

theorem writer_bufelems_witness:
  "(\<exists>fs1 w. stream_writer 4 ex_fs ''out'' (- 4) = Inr (fs1, w) \<and> w_bufelems w = 2 ^ 62 - 1) \<and>
   (\<exists>fs1 w. stream_writer 1 ex_fs ''out'' (- 1) = Inr (fs1, w) \<and> w_bufelems w = - 1)"
proof -
  have "\<exists>fs1 w. stream_writer 4 ex_fs ''out'' (- 4) = Inr (fs1, w)"
    "\<exists>fs1 w. stream_writer 1 ex_fs ''out'' (- 1) = Inr (fs1, w)"
    by (simp_all add: stream_writer_def file_open_def Let_def)
  then obtain fs1 w fs2 w' where a: "stream_writer 4 ex_fs ''out'' (- 4) = Inr (fs1, w)"
    and b: "stream_writer 1 ex_fs ''out'' (- 1) = Inr (fs2, w')"
    by blast
  have "w_bufelems w = 2 ^ 62 - 1"
    using Writer.writer_bufelems [OF _ _ _ a] by simp
  moreover have "w_bufelems w' = - 1"
    using Writer.writer_bufelems [OF _ _ _ b] by simp
  ultimately show ?thesis
    using a b by blast
qed

section \<open>Construction errors\<close>

theorem stream_reader_error_witness:
  "stream_reader 4 ex10_fs ''missing'' 16 = Inl Open_failure \<and>
   (\<exists>r. stream_reader 4 ex10_fs ''ints'' 16 = Inr r)"
proof -
  have a: "stream_reader 4 ex10_fs ''missing'' 16 = Inl Open_failure"
    using Reader_Forward.stream_reader_error [where sz = 4 and fs = ex10_fs and fname = "''missing''" and b = 16
        and e = Open_failure]
    by (simp add: ex10_fs_def)
  have "\<And>e. stream_reader 4 ex10_fs ''ints'' 16 \<noteq> Inl e"
    using Reader_Forward.stream_reader_error [where sz = 4 and fs = ex10_fs and fname = "''ints''" and b = 16] by (simp add: ex10_fs_def)
  then have "\<exists>r. stream_reader 4 ex10_fs ''ints'' 16 = Inr r"
    by (cases "stream_reader 4 ex10_fs ''ints'' 16") auto
  then show ?thesis
    using a by blast
qed

section \<open>A transform from one file to another\<close>

theorem transform_output_witness:
  "transform 4 rev (ex10_fs(''out'' \<mapsto> [1])) ''ints'' ''out'' 16 8 =
   Some (Inr (ex10_fs(''out'' \<mapsto> concat (map rev ex10))))"
  using Pipeline.transform_output [of "ex10_fs(''out'' \<mapsto> [1])" "''ints''" ex10 4 "''out''" 16 8 rev]
  by (simp add: ex10_fs_def ex10_def)

section \<open>Writing, and reading back in reverse\<close>

text \<open>
  C34. Round trip through the reverse interface: records of \<open>sizeof(T)\<close> bytes written in
  order by a \<open>stream_writer\<close> and destroyed, then read by a \<open>stream_reader\<close> of another
  capacity moved with \<open>goto_end(n)\<close> to the end, come back through
  \<open>while (!empty_reverse()) read_reverse()\<close> as the same records, last first.
\<close>

theorem write_then_read_reverse:
  assumes "0 < sz" "uniform sz ys" "int sz \<le> wbytes" "wbytes < 2 ^ 63"
    and "int sz \<le> rbytes" "2 * rbytes < 2 ^ 63" "int (length ys * sz) < 2 ^ 63"
  shows "\<exists>fs1 w w' fs2 r r1. stream_writer sz fs fname wbytes = Inr (fs1, w) \<and> write_all ys w = Inr w' \<and>
           writer_close fs1 fname w' = Inr fs2 \<and> stream_reader sz fs2 fname rbytes = Inr r \<and>
           goto_end sz (int (length ys)) r = Inr r1 \<and> drain_rev sz (Suc (length ys)) r1 = Some (Inr (rev ys))"
proof -
  obtain w where w: "stream_writer sz fs fname wbytes = Inr (fs(fname \<mapsto> []), w)" "wr_ok w" "w_abs w = []"
    using stream_writer_wr_ok [OF assms(3,4,1), of fs fname] by blast
  obtain w' where w': "write_all ys w = Inr w'" "wr_ok w'" "w_abs w' = concat ys"
    using write_all_wr_ok [OF w(2)] w(3) by auto
  let ?fs2 = "(fs(fname \<mapsto> []))(fname \<mapsto> w_abs w')"
  have close: "writer_close (fs(fname \<mapsto> [])) fname w' = Inr ?fs2"
    by (rule writer_close_abs [OF w'(2)])
  have "?fs2 fname = Some (concat ys)"
    using w'(3) by simp
  then obtain r r1 where r: "stream_reader sz ?fs2 fname rbytes = Inr r"
      "goto_end sz (int (length ys)) r = Inr r1" "rev_inv sz ys r1" "rcur r1 = length ys"
    using reader_at_end [where fs = ?fs2 and fname = fname and xs = ys, OF _ assms(1,2,5,6,7)] by blast
  have "drain_rev sz (Suc (length ys)) r1 = Some (Inr (rev (take (rcur r1) ys)))"
    by (rule drain_rev_rev [OF r(3)]) (simp add: r(4))
  then show ?thesis
    using w w' close r by auto
qed

theorem write_then_read_reverse_witness:
  "\<exists>fs1 w w' fs2 r r1. stream_writer 2 ex_fs ''out'' 4 = Inr (fs1, w) \<and> write_all ex_records w = Inr w' \<and>
     writer_close fs1 ''out'' w' = Inr fs2 \<and> stream_reader 2 fs2 ''out'' 6 = Inr r \<and>
     goto_end 2 (int (length ex_records)) r = Inr r1 \<and>
     drain_rev 2 (Suc (length ex_records)) r1 = Some (Inr (rev ex_records))"
  by (rule write_then_read_reverse) (simp_all add: ex_records_def)

text \<open>
  Witness of C33: a writer of capacity 2 holding one pending record, given two writes.
\<close>

theorem writer_run_refines_witness:
  "\<exists>w'. run_steps wr_step [Op_write [3, 4], Op_write [5, 6]] ex_writer = Inr ([(), ()], w') \<and> wr_ok w' \<and>
     w_abs w' = [7, 8, 1, 2, 3, 4, 5, 6] \<and>
     writer_close ex_fs ''out'' w' = Inr (ex_fs(''out'' \<mapsto> [7, 8, 1, 2, 3, 4, 5, 6]))"
proof -
  have ok: "wr_ok ex_writer"
    by (simp add: ex_writer_def wr_ok_def)
  have "spec_steps wr_spec [Op_write [3, 4], Op_write [5, 6]] (w_abs ex_writer) =
      Some ([(), ()], [7, 8, 1, 2, 3, 4, 5, 6])"
    by (simp add: ex_writer_def w_abs_def)
  then show ?thesis
    using Writer_Machine.writer_run_refines [OF ok, where fs = ex_fs and fname = "''out''"] by blast
qed

section \<open>Reverse refills from other states\<close>

theorem refill_reverse_eq_ref_witness:
  "refill_reverse 2 1 ex_rec_reader = refill_reverse_ref 2 1 ex_rec_reader"
  using Reader_Reverse.refill_reverse_eq_ref [of ex_rec_reader 2 1] by (simp add: ex_rec_reader_def)

theorem goto_end_loads_file_end_witness:
  "\<exists>r'. goto_end 2 5 ex_rec_reader = Inr r' \<and> take 1 (m_buffer r') = [[5, 6]] \<and>
     m_filled r' = 1 \<and> m_offset r' = 4 \<and> m_pos r' = 0"
proof -
  have fr: "frame 2 ex_records ex_rec_reader"
    using ex_rec_reader_fwd by (simp add: fwd_inv_def)
  have c: "m_bufelems ex_rec_reader = int 1"
    by (simp add: ex_rec_reader_def)
  show ?thesis
    using Reader_Realign.goto_end_loads_file_end [OF fr c, of 5] by (simp add: ex_records_def)
qed

theorem realign_reads_window_end_witness:
  "\<exists>r'. read_reverse 1 True ex_byte_reader = Inr ([4], r') \<and> m_offset r' = 0 \<and> m_pos r' = 0 \<and>
     take 2 (m_buffer r') = [[3], [4]]"
proof -
  have c: "m_bufelems ex_byte_reader = int 2"
    by (simp add: ex_byte_reader_def)
  show ?thesis
    using Reader_Realign.realign_reads_window_end [OF ex_byte_reader_fwd c]
    by (simp add: ex_byte_reader_def ex_bytes_def)
qed

theorem realign_at_start_exhausts_witness:
  "\<exists>x r1 r2. read_reverse 2 True ex_rec_reader = Inr (x, r1) \<and> m_filled r1 = 0 \<and> m_offset r1 = 0 \<and>
     empty_reverse 2 r1 = Inr (True, r2)"
  using Reader_Realign.realign_at_start_exhausts [OF ex_rec_reader_fwd]
  by (simp add: ex_rec_reader_def ex_records_def)

theorem read_last_refills_empty_witness:
  "0 < m_filled ex_last_reader \<and>
   (\<exists>r'. read 1 ex_last_reader = Inr ([5], r') \<and> m_filled r' = 0 \<and> m_offset r' = 5 \<and> m_pos r' = 0)"
proof -
  have inv: "fwd_inv 1 ex_bytes ex_last_reader"
    by (simp add: fwd_defs ex_bytes_def ex_last_reader_def)
  have "Suc (cur ex_last_reader) = length ex_bytes" "ex_bytes ! cur ex_last_reader = [5]"
    by (simp_all add: cur_def ex_bytes_def ex_last_reader_def)
  then show ?thesis
    using Reader_Forward.read_last_refills_empty [OF inv] by (simp add: ex_bytes_def)
qed

end
